theory Spec2Isabelle
  imports Main
begin

section \<open>String operations of the runtime\<close>

text \<open>
  JavaScript strings are modelled as \<^typ>\<open>string\<close>. The functions below are the
  library calls the sources make on strings, restricted to the arguments the sources pass
  (all indices are non-negative and within the string).
\<close>

definition endsWith :: "string \<Rightarrow> string \<Rightarrow> bool" where
  "endsWith s suf = (length suf \<le> length s \<and> drop (length s - length suf) s = suf)"

definition startsWith :: "string \<Rightarrow> string \<Rightarrow> bool" where
  "startsWith s pre = (take (length pre) s = pre)"

text \<open>\<open>s.split(c)[0]\<close>: the part of \<open>s\<close> before the first \<open>c\<close>, all of \<open>s\<close> when
  there is none.\<close>

definition split_first :: "char \<Rightarrow> string \<Rightarrow> string" where
  "split_first c s = takeWhile (\<lambda>x. x \<noteq> c) s"

text \<open>\<open>s.slice(a, b)\<close> and \<open>s.slice(a)\<close> for \<open>0 \<le> a\<close>, \<open>0 \<le> b\<close>: empty when
  \<open>b \<le> a\<close>.\<close>

definition slice :: "nat \<Rightarrow> nat \<Rightarrow> string \<Rightarrow> string" where
  "slice a b s = take (b - a) (drop a s)"

definition slice_from :: "nat \<Rightarrow> string \<Rightarrow> string" where
  "slice_from a s = drop a s"

text \<open>\<open>s.slice(-n)\<close>: the last \<open>n\<close> characters.\<close>

definition slice_last :: "nat \<Rightarrow> string \<Rightarrow> string" where
  "slice_last n s = drop (length s - n) s"

text \<open>\<open>s.indexOf(m)\<close> and \<open>s.indexOf(m, i)\<close>: the first position at or after \<open>i\<close>
  where \<open>m\<close> occurs, \<open>None\<close> for the source's \<open>-1\<close>.\<close>

fun indexOf_aux :: "string \<Rightarrow> string \<Rightarrow> nat \<Rightarrow> nat option" where
  "indexOf_aux m [] k = (if m = [] then Some k else None)"
| "indexOf_aux m (c # cs) k =
     (if take (length m) (c # cs) = m then Some k else indexOf_aux m cs (Suc k))"

definition indexOf_from :: "string \<Rightarrow> nat \<Rightarrow> string \<Rightarrow> nat option" where
  "indexOf_from m i s = indexOf_aux m (drop (min i (length s)) s) (min i (length s))"

definition indexOf :: "string \<Rightarrow> string \<Rightarrow> nat option" where
  "indexOf m s = indexOf_from m 0 s"

text \<open>\<open>s.trim()\<close>: white space of the Latin-1 range (tab, line feed, vertical tab, form
  feed, carriage return, space, no-break space) removed at both ends.\<close>

definition is_space :: "char \<Rightarrow> bool" where
  "is_space c = (of_char c \<in> {9, 10, 11, 12, 13, 32, 160 :: nat})"

definition trim :: "string \<Rightarrow> string" where
  "trim s = rev (dropWhile is_space (rev (dropWhile is_space s)))"

text \<open>The last element of \<open>s.split('\n')\<close>: what follows the last line feed.\<close>

definition last_line :: "string \<Rightarrow> string" where
  "last_line s = rev (takeWhile (\<lambda>c. c \<noteq> CHR 0x0A) (rev s))"

section \<open>Configuration\<close>

text \<open>
  The constants the sources import from \<open>config.js\<close>. Their values are set by the
  deployment, so they are a parameter of every definition that reads them.
\<close>

record config =
  ASSISTANT_HAS_OWN_NUMBER :: bool
  ASSISTANT_NAME :: string
  CONTAINER_TIMEOUT :: nat
  IDLE_TIMEOUT :: nat
  CONTAINER_MAX_OUTPUT_SIZE :: nat

section \<open>The WhatsApp channel: identity cache and outgoing queue\<close>

type_synonym queue_item = "string \<times> string"

text \<open>
  The fields of class \<open>WhatsAppChannel\<close> that \<open>translateJid\<close>, \<open>sendMessage\<close> and
  \<open>flushOutgoingQueue\<close> read and write, followed by what the model observes of the
  socket: \<open>pn_queries\<close> lists the calls of \<open>getPNForLID\<close>, \<open>sock_sent\<close> the messages
  \<open>sock.sendMessage\<close> accepted, \<open>pushed\<close> every item ever pushed on the queue,
  \<open>attempts\<close> every item a drain handed to \<open>sock.sendMessage\<close>, \<open>drains\<close> the
  item each running call of \<open>flushOutgoingQueue\<close> is awaiting, and \<open>sending\<close> the item
  each running call of \<open>sendMessage\<close> is awaiting.
\<close>

record WhatsAppChannel =
  connected :: bool
  lidToPhoneMap :: "string \<rightharpoonup> string"
  outgoingQueue :: "queue_item list"
  flushing :: bool
  pn_queries :: "string list"
  sock_sent :: "queue_item list"
  pushed :: "queue_item list"
  attempts :: "queue_item list"
  drains :: "queue_item list"
  sending :: "queue_item list"

definition wa_init :: WhatsAppChannel where
  "wa_init = \<lparr> connected = False, lidToPhoneMap = Map.empty, outgoingQueue = [],
     flushing = False, pn_queries = [], sock_sent = [], pushed = [], attempts = [],
     drains = [], sending = [] \<rparr>"

subsection \<open>translateJid\<close>

text \<open>
  How \<open>await this.sock.signalRepository?.lidMapping?.getPNForLID(jid)\<close> ends: the call
  returns a string or \<open>null\<close>, or it throws, or there is no \<open>signalRepository\<close> or no
  \<open>lidMapping\<close> and no call is made.
\<close>

datatype pn_reply = PN string | PN_null | PN_throws | PN_unavailable

definition lid_user :: "string \<Rightarrow> string" where
  "lid_user jid = split_first CHR '':'' (split_first CHR ''@'' jid)"

text \<open>The \<open>try\<close> block and what follows it.\<close>

definition query_pn :: "string \<Rightarrow> pn_reply \<Rightarrow> WhatsAppChannel \<Rightarrow> string \<times> WhatsAppChannel" where
  "query_pn jid reply s =
     (case reply of
        PN_unavailable \<Rightarrow> (jid, s)
      | PN pn \<Rightarrow>
          let s1 = s\<lparr>pn_queries := pn_queries s @ [jid]\<rparr> in
          if pn \<noteq> [] then
            let phoneJid = lid_user pn @ ''@s.whatsapp.net'' in
            (phoneJid, s1\<lparr>lidToPhoneMap := (lidToPhoneMap s1)(lid_user jid \<mapsto> phoneJid)\<rparr>)
          else (jid, s1)
      | PN_null \<Rightarrow> (jid, s\<lparr>pn_queries := pn_queries s @ [jid]\<rparr>)
      | PN_throws \<Rightarrow> (jid, s\<lparr>pn_queries := pn_queries s @ [jid]\<rparr>))"

text \<open>\<open>reply\<close> is how the lookup ends if it is reached. A cached value counts as
  present when it is truthy, that is a non-empty string; \<open>lidToPhoneMap\<close> is looked up
  as a map, without the properties a JavaScript object inherits.\<close>

definition translateJid :: "string \<Rightarrow> pn_reply \<Rightarrow> WhatsAppChannel \<Rightarrow> string \<times> WhatsAppChannel" where
  "translateJid jid reply s =
     (if \<not> endsWith jid ''@lid'' then (jid, s)
      else case lidToPhoneMap s (lid_user jid) of
             Some cached \<Rightarrow> if cached \<noteq> [] then (cached, s) else query_pn jid reply s
           | None \<Rightarrow> query_pn jid reply s)"

subsection \<open>sendMessage and flushOutgoingQueue\<close>

text \<open>How an awaited call of \<open>sock.sendMessage\<close> settles.\<close>

datatype io = Done | Throws

definition prefixed :: "config \<Rightarrow> string \<Rightarrow> string \<Rightarrow> string" where
  "prefixed cfg jid text =
     (if \<not> ASSISTANT_HAS_OWN_NUMBER cfg \<and> endsWith jid ''@g.us''
      then ASSISTANT_NAME cfg @ '': '' @ text else text)"

definition push :: "queue_item \<Rightarrow> WhatsAppChannel \<Rightarrow> WhatsAppChannel" where
  "push item s = s\<lparr>outgoingQueue := outgoingQueue s @ [item], pushed := pushed s @ [item]\<rparr>"

text \<open>
  \<open>sendMessage\<close> suspends at \<open>await this.sock.sendMessage\<close>. \<open>sendMessage\<close> is the
  call up to there: it queues the item when the channel is disconnected and starts the
  transport call otherwise. \<open>send_resume k r\<close> is the continuation of the \<open>k\<close>-th
  running call when its transport call settles with \<open>r\<close>: the \<open>catch\<close> queues the
  item. Both return normally on every path.
\<close>

definition sendMessage :: "config \<Rightarrow> string \<Rightarrow> string \<Rightarrow> WhatsAppChannel \<Rightarrow> WhatsAppChannel" where
  "sendMessage cfg jid text s =
     (let item = (jid, prefixed cfg jid text) in
      if \<not> connected s then push item s
      else s\<lparr>sending := sending s @ [item]\<rparr>)"

definition send_resume :: "nat \<Rightarrow> io \<Rightarrow> WhatsAppChannel \<Rightarrow> WhatsAppChannel" where
  "send_resume k r s =
     (if k < length (sending s) then
        let item = sending s ! k;
            s1 = s\<lparr>sending := take k (sending s) @ drop (Suc k) (sending s)\<rparr> in
        case r of
          Done \<Rightarrow> s1\<lparr>sock_sent := sock_sent s1 @ [item]\<rparr>
        | Throws \<Rightarrow> push item s1
      else s)"

text \<open>
  \<open>flushOutgoingQueue\<close> suspends at each \<open>await this.sock.sendMessage\<close>, so it is
  modelled by its synchronous segments. \<open>flush_loop\<close> is the head of the while loop: it
  either shifts the first item and starts its send, or leaves through \<open>finally\<close>.
  \<open>flushOutgoingQueue\<close> is the call up to the first await. \<open>flush_resume i r\<close> is the
  continuation of the \<open>i\<close>-th running drain when its awaited send settles with \<open>r\<close>;
  an exception leaves through \<open>finally\<close> without touching the queue.
\<close>

definition flush_loop :: "WhatsAppChannel \<Rightarrow> WhatsAppChannel" where
  "flush_loop s =
     (case outgoingQueue s of
        [] \<Rightarrow> s\<lparr>flushing := False\<rparr>
      | item # rest \<Rightarrow>
          s\<lparr>outgoingQueue := rest, attempts := attempts s @ [item], drains := drains s @ [item]\<rparr>)"

definition flushOutgoingQueue :: "WhatsAppChannel \<Rightarrow> WhatsAppChannel" where
  "flushOutgoingQueue s =
     (if flushing s \<or> outgoingQueue s = [] then s else flush_loop (s\<lparr>flushing := True\<rparr>))"

definition flush_resume :: "nat \<Rightarrow> io \<Rightarrow> WhatsAppChannel \<Rightarrow> WhatsAppChannel" where
  "flush_resume i r s =
     (if i < length (drains s) then
        let item = drains s ! i;
            s1 = s\<lparr>drains := take i (drains s) @ drop (Suc i) (drains s)\<rparr> in
        case r of
          Done \<Rightarrow> flush_loop (s1\<lparr>sock_sent := sock_sent s1 @ [item]\<rparr>)
        | Throws \<Rightarrow> s1\<lparr>flushing := False\<rparr>
      else s)"

text \<open>
  What can happen to a channel: a call of \<open>sendMessage\<close>, the transport call of a
  running \<open>sendMessage\<close> settling, the connection opening
  (the handler sets \<open>connected\<close>, records the own LID mapping when the socket knows the
  user's id and lid, and calls \<open>flushOutgoingQueue\<close>), the connection closing, a further
  call of \<open>flushOutgoingQueue\<close>, and the awaited send of a running drain settling.
\<close>

datatype wa_event =
    Ev_send string string
  | Ev_sent nat io
  | Ev_open "(string \<times> string option) option"
  | Ev_close
  | Ev_flush
  | Ev_settle nat io

definition on_open :: "(string \<times> string option) option \<Rightarrow> WhatsAppChannel \<Rightarrow> WhatsAppChannel" where
  "on_open user s =
     (let s1 = s\<lparr>connected := True\<rparr>;
          s2 = (case user of
                  Some (uid, Some lid) \<Rightarrow>
                    let phoneUser = split_first CHR '':'' uid;
                        lidUser = split_first CHR '':'' lid in
                    if lidUser \<noteq> [] \<and> phoneUser \<noteq> [] then
                      s1\<lparr>lidToPhoneMap := (lidToPhoneMap s1)(lidUser \<mapsto> phoneUser @ ''@s.whatsapp.net'')\<rparr>
                    else s1
                | _ \<Rightarrow> s1) in
      flushOutgoingQueue s2)"

fun wa_step :: "config \<Rightarrow> wa_event \<Rightarrow> WhatsAppChannel \<Rightarrow> WhatsAppChannel" where
  "wa_step cfg (Ev_send jid text) s = sendMessage cfg jid text s"
| "wa_step cfg (Ev_sent k r) s = send_resume k r s"
| "wa_step cfg (Ev_open user) s = on_open user s"
| "wa_step cfg Ev_close s = s\<lparr>connected := False\<rparr>"
| "wa_step cfg Ev_flush s = flushOutgoingQueue s"
| "wa_step cfg (Ev_settle i r) s = flush_resume i r s"

fun wa_run :: "config \<Rightarrow> wa_event list \<Rightarrow> WhatsAppChannel \<Rightarrow> WhatsAppChannel" where
  "wa_run cfg [] s = s"
| "wa_run cfg (e # es) s = wa_run cfg es (wa_step cfg e s)"

text \<open>The invariant of the channel that the drain relies on: what was attempted and what
  is still queued make up, in order, what was pushed; at most one drain is running, and
  the \<open>flushing\<close> flag is set exactly while one is.\<close>

definition wa_inv :: "WhatsAppChannel \<Rightarrow> bool" where
  "wa_inv s = (attempts s @ outgoingQueue s = pushed s \<and> length (drains s) \<le> 1
     \<and> (flushing s \<longleftrightarrow> drains s \<noteq> []))"



section \<open>The agent runner\<close>

subsection \<open>Data\<close>

datatype status = Success | Error

datatype stream_type = Thinking | Text | Tool

record ContainerOutput =
  status :: status
  result :: "string option"
  newSessionId :: "string option"
  error :: "string option"
  isPartial :: "bool option"
  streamType :: "stream_type option"

record ContainerInput =
  prompt :: string
  sessionId :: "string option"
  groupFolder :: string
  chatJid :: string
  isMain :: bool
  isScheduledTask :: "bool option"
  secrets :: "(string \<times> string) list option"

text \<open>
  Of \<open>RegisteredGroup\<close>, declared in \<open>types.js\<close>, the record has the fields the
  runner reads: \<open>name\<close>, \<open>folder\<close> and \<open>containerConfig?.timeout\<close>.
\<close>

record RegisteredGroup =
  group_name :: string
  group_folder :: string
  containerConfig_timeout :: "nat option"

definition OUTPUT_START_MARKER :: string where
  "OUTPUT_START_MARKER = ''---NANOCLAW_OUTPUT_START---''"

definition OUTPUT_END_MARKER :: string where
  "OUTPUT_END_MARKER = ''---NANOCLAW_OUTPUT_END---''"

text \<open>
  What one call of \<open>runContainerAgent\<close> is given: the configuration, the group, whether
  the caller passed an \<open>onOutput\<close> callback, and the surroundings the function reads:
  \<open>JSON.parse\<close> (\<open>Inl\<close> the message of the exception it throws), the secrets
  \<open>readSecrets()\<close> returns, and whether \<open>LOG_LEVEL\<close> asks for verbose logs.
\<close>

record invocation =
  i_cfg :: config
  i_group :: RegisteredGroup
  i_onOutput :: bool
  i_parse :: "string \<Rightarrow> string + ContainerOutput"
  i_secrets :: "(string \<times> string) list"
  i_verbose :: bool

text \<open>
  What the function does to the outside. A file is recorded by the values the source
  formats into it: the timeout log by the exit code and \<open>hadStreamingOutput\<close>, the run log
  by the exit code, the two truncation flags and either the input object, \<open>stderr\<close> and
  \<open>stdout\<close> (verbose or failed run) or the prompt's length and the session id. The input
  object stands for its \<open>JSON.stringify\<close> text.
\<close>

datatype log_detail = Full ContainerInput string string | Summary nat string

datatype log_file =
    Timeout_log "nat option" bool
  | Run_log "nat option" bool bool log_detail

datatype signal = SIGTERM

datatype effect =
    Stdin_write ContainerInput
  | Stdin_end
  | Kill signal
  | File_write log_file
  | Deliver_begin ContainerOutput
  | Deliver_end ContainerOutput io
  | Resolve ContainerOutput

text \<open>
  \<open>outputChain\<close> is a promise chain. It is modelled by the callbacks chained on it that
  have not finished, oldest first: \<open>Deliver e\<close> for \<open>() => onOutput(e)\<close> and \<open>Settle r\<close>
  for the \<open>() => resolve(r)\<close> of the close handler. The first callback of the list is the
  one running. \<open>chain_rejected\<close> holds once a callback's promise has rejected: callbacks
  chained with \<open>then\<close> on a rejected promise never run.
\<close>

datatype task = Deliver ContainerOutput | Settle ContainerOutput

text \<open>
  The variables of one call. \<open>timeout\<close> is the time at which the pending timer fires
  (\<open>None\<close> when it was cleared or has fired) and \<open>now\<close> the current time, both in
  milliseconds since the spawn. \<open>resolved\<close> is the value of the returned promise.
  \<open>framed\<close> and \<open>effects\<close> observe the call: every event parsed from a marker pair,
  in order, and everything done to the outside, in order.
\<close>

record agent_run =
  input :: ContainerInput
  stdout :: string
  stderr :: string
  stdoutTruncated :: bool
  stderrTruncated :: bool
  parseBuffer :: string
  newSessionId_var :: "string option"
  outputChain :: "task list"
  chain_rejected :: bool
  timedOut :: bool
  hadStreamingOutput :: bool
  timeout :: "nat option"
  now :: nat
  resolved :: "ContainerOutput option"
  framed :: "ContainerOutput list"
  effects :: "effect list"

subsection \<open>Formatting numbers\<close>

definition digit :: "nat \<Rightarrow> char" where
  "digit d = ''0123456789'' ! d"

fun show_nat :: "nat \<Rightarrow> string" where
  "show_nat n =
     (if n < 10 then [digit n]
      else show_nat (n div 10) @ [digit (n mod 10)])"

definition show_code :: "nat option \<Rightarrow> string" where
  "show_code code = (case code of None \<Rightarrow> ''null'' | Some n \<Rightarrow> show_nat n)"

subsection \<open>The promise and the output chain\<close>

text \<open>\<open>resolve(r)\<close>: the first call settles the promise, later calls do nothing.\<close>

definition resolve :: "ContainerOutput \<Rightarrow> agent_run \<Rightarrow> agent_run" where
  "resolve r s =
     (case resolved s of
        None \<Rightarrow> s\<lparr>resolved := Some r, effects := effects s @ [Resolve r]\<rparr>
      | Some _ \<Rightarrow> s)"

text \<open>Runs the chain from its first callback: a \<open>Settle\<close> finishes at once and the next
  callback runs, a \<open>Deliver\<close> calls \<open>onOutput\<close> and stays first until its promise settles.\<close>

fun run_chain :: "task list \<Rightarrow> agent_run \<Rightarrow> agent_run" where
  "run_chain [] s = s\<lparr>outputChain := []\<rparr>"
| "run_chain (Settle r # ts) s = run_chain ts (resolve r s)"
| "run_chain (Deliver e # ts) s =
     s\<lparr>outputChain := Deliver e # ts, effects := effects s @ [Deliver_begin e]\<rparr>"

text \<open>\<open>outputChain.then(t)\<close>.\<close>

definition chain_then :: "task \<Rightarrow> agent_run \<Rightarrow> agent_run" where
  "chain_then t s =
     (if chain_rejected s then s
      else if outputChain s = [] then run_chain [t] s
      else s\<lparr>outputChain := outputChain s @ [t]\<rparr>)"

text \<open>The promise of the running \<open>onOutput\<close> call settles.\<close>

definition callback_settled :: "io \<Rightarrow> agent_run \<Rightarrow> agent_run" where
  "callback_settled r s =
     (case outputChain s of
        Deliver e # ts \<Rightarrow>
          (case r of
             Done \<Rightarrow> run_chain ts (s\<lparr>effects := effects s @ [Deliver_end e Done]\<rparr>)
           | Throws \<Rightarrow>
               s\<lparr>effects := effects s @ [Deliver_end e Throws], outputChain := [],
                  chain_rejected := True\<rparr>)
      | _ \<Rightarrow> s)"

subsection \<open>The timer\<close>

definition configTimeout :: "invocation \<Rightarrow> nat" where
  "configTimeout i =
     (case containerConfig_timeout (i_group i) of
        Some t \<Rightarrow> if t \<noteq> 0 then t else CONTAINER_TIMEOUT (i_cfg i)
      | None \<Rightarrow> CONTAINER_TIMEOUT (i_cfg i))"

definition timeoutMs :: "invocation \<Rightarrow> nat" where
  "timeoutMs i = max (configTimeout i) (IDLE_TIMEOUT (i_cfg i) + 30000)"

text \<open>\<open>killOnTimeout\<close>. The second timer it sets, which sends \<open>SIGKILL\<close> after 15 seconds
  if \<open>agent.killed\<close> is still false, writes none of the variables above and is left out.\<close>

definition killOnTimeout :: "agent_run \<Rightarrow> agent_run" where
  "killOnTimeout s = s\<lparr>timedOut := True, effects := effects s @ [Kill SIGTERM]\<rparr>"

text \<open>
  \<open>setTimeout(f, ms)\<close> of the runtime: a delay below 1 or above 2147483647 milliseconds is
  set to 1 millisecond. \<open>timer_delay\<close> is the delay the timer really gets.
\<close>

definition timer_delay :: "nat \<Rightarrow> nat" where
  "timer_delay ms = (if ms < 1 \<or> 2147483647 < ms then 1 else ms)"

text \<open>\<open>timeout = setTimeout(killOnTimeout, timeoutMs)\<close>, at the spawn and in
  \<open>resetTimeout\<close> (where \<open>clearTimeout\<close> drops the pending timer first).\<close>

definition resetTimeout :: "invocation \<Rightarrow> agent_run \<Rightarrow> agent_run" where
  "resetTimeout i s = s\<lparr>timeout := Some (now s + timer_delay (timeoutMs i))\<rparr>"

text \<open>Time passes by \<open>dt\<close> milliseconds; the pending timer fires if it is due.\<close>

definition advance :: "nat \<Rightarrow> agent_run \<Rightarrow> agent_run" where
  "advance dt s =
     (let s1 = s\<lparr>now := now s + dt\<rparr> in
      case timeout s1 of
        Some d \<Rightarrow> if d \<le> now s1 then killOnTimeout (s1\<lparr>timeout := None\<rparr>) else s1
      | None \<Rightarrow> s1)"

subsection \<open>The stdout handler\<close>

text \<open>The body of the \<open>try\<close> in the scanning loop, for one extracted string.\<close>

definition emit :: "invocation \<Rightarrow> string \<Rightarrow> agent_run \<Rightarrow> agent_run" where
  "emit i jsonStr s =
     (case i_parse i jsonStr of
        Inl err \<Rightarrow> s
      | Inr parsed \<Rightarrow>
          let s1 = (case newSessionId parsed of
                      Some sid \<Rightarrow> if sid \<noteq> [] then s\<lparr>newSessionId_var := Some sid\<rparr> else s
                    | None \<Rightarrow> s);
              s2 = resetTimeout i (s1\<lparr>hadStreamingOutput := True\<rparr>)
          in chain_then (Deliver parsed) (s2\<lparr>framed := framed s2 @ [parsed]\<rparr>))"

text \<open>The \<open>while\<close> loop over \<open>parseBuffer\<close>.\<close>

function scan_loop :: "invocation \<Rightarrow> agent_run \<Rightarrow> agent_run" where
  "scan_loop i s =
     (case indexOf OUTPUT_START_MARKER (parseBuffer s) of
        None \<Rightarrow> s
      | Some startIdx \<Rightarrow>
          (case indexOf_from OUTPUT_END_MARKER startIdx (parseBuffer s) of
             None \<Rightarrow> s
           | Some endIdx \<Rightarrow>
               let jsonStr = trim (slice (startIdx + length OUTPUT_START_MARKER) endIdx (parseBuffer s))
               in scan_loop i
                    (emit i jsonStr
                       (s\<lparr>parseBuffer :=
                            slice_from (endIdx + length OUTPUT_END_MARKER) (parseBuffer s)\<rparr>))))"
  by pat_completeness auto
termination
proof (relation "measure (\<lambda>(i, s). length (parseBuffer s))")
  show "wf (measure (\<lambda>(i, s). length (parseBuffer s)))"
    by simp
next
  fix i :: invocation and s :: agent_run and startIdx endIdx :: nat and jsonStr :: string
  assume e: "indexOf_from OUTPUT_END_MARKER startIdx (parseBuffer s) = Some endIdx"
  have aux: "indexOf_aux m xs k = Some j \<Longrightarrow> j + length m \<le> k + length xs" for m xs k j
  proof (induction xs arbitrary: k)
    case Nil
    then show ?case by (simp split: if_splits)
  next
    case (Cons c cs)
    show ?case
    proof (cases "take (length m) (c # cs) = m")
      case True
      then have "length m \<le> length (c # cs)"
        by (metis length_take min.absorb_iff2 min.commute)
      with True Cons.prems show ?thesis by simp
    next
      case False
      with Cons.prems have "indexOf_aux m cs (Suc k) = Some j" by simp
      then have "j + length m \<le> Suc k + length cs" by (rule Cons.IH)
      then show ?thesis by simp
    qed
  qed
  have bound: "endIdx + length OUTPUT_END_MARKER \<le> length (parseBuffer s)"
    using aux [OF e [unfolded indexOf_from_def]] by simp
  have rc: "parseBuffer (run_chain ts u) = parseBuffer u" for ts u
    by (induction ts u rule: run_chain.induct) (simp_all add: resolve_def split: option.splits)
  have keep: "parseBuffer (emit i j u) = parseBuffer u" for j u
    by (simp add: emit_def chain_then_def resetTimeout_def rc Let_def
        split: sum.splits option.splits)
  have pos: "0 < length OUTPUT_END_MARKER"
    by (simp add: OUTPUT_END_MARKER_def)
  have lt: "length (parseBuffer s) - (endIdx + length OUTPUT_END_MARKER) < length (parseBuffer s)"
    using bound pos by linarith
  show "((i, emit i jsonStr
            (s\<lparr>parseBuffer := slice_from (endIdx + length OUTPUT_END_MARKER) (parseBuffer s)\<rparr>)),
         (i, s)) \<in> measure (\<lambda>(i, s). length (parseBuffer s))"
    using lt by (simp add: keep slice_from_def)
qed

text \<open>\<open>agent.stdout.on('data', ...)\<close>.\<close>

definition on_stdout :: "invocation \<Rightarrow> string \<Rightarrow> agent_run \<Rightarrow> agent_run" where
  "on_stdout i chunk s =
     (let s1 = (if \<not> stdoutTruncated s then
                  let remaining = CONTAINER_MAX_OUTPUT_SIZE (i_cfg i) - length (stdout s) in
                  if length chunk > remaining
                  then s\<lparr>stdout := stdout s @ slice 0 remaining chunk, stdoutTruncated := True\<rparr>
                  else s\<lparr>stdout := stdout s @ chunk\<rparr>
                else s)
      in if i_onOutput i
         then scan_loop i (s1\<lparr>parseBuffer := parseBuffer s1 @ chunk\<rparr>)
         else s1)"

text \<open>\<open>agent.stderr.on('data', ...)\<close>; the lines it sends to the debug log are left out.\<close>

definition on_stderr :: "invocation \<Rightarrow> string \<Rightarrow> agent_run \<Rightarrow> agent_run" where
  "on_stderr i chunk s =
     (if stderrTruncated s then s
      else let remaining = CONTAINER_MAX_OUTPUT_SIZE (i_cfg i) - length (stderr s) in
           if length chunk > remaining
           then s\<lparr>stderr := stderr s @ slice 0 remaining chunk, stderrTruncated := True\<rparr>
           else s\<lparr>stderr := stderr s @ chunk\<rparr>)"

subsection \<open>The close and error handlers\<close>

definition soft_success :: "agent_run \<Rightarrow> ContainerOutput" where
  "soft_success s = \<lparr> status = Success, result = None, newSessionId = newSessionId_var s,
     error = None, isPartial = None, streamType = None \<rparr>"

definition error_output :: "string \<Rightarrow> ContainerOutput" where
  "error_output msg = \<lparr> status = Error, result = None, newSessionId = None,
     error = Some msg, isPartial = None, streamType = None \<rparr>"

text \<open>Legacy mode: the string handed to \<open>JSON.parse\<close>.\<close>

definition legacy_jsonLine :: "string \<Rightarrow> string" where
  "legacy_jsonLine out =
     (case indexOf OUTPUT_START_MARKER out of
        None \<Rightarrow> last_line (trim out)
      | Some startIdx \<Rightarrow>
          (case indexOf OUTPUT_END_MARKER out of
             None \<Rightarrow> last_line (trim out)
           | Some endIdx \<Rightarrow>
               if endIdx > startIdx
               then trim (slice (startIdx + length OUTPUT_START_MARKER) endIdx out)
               else last_line (trim out)))"

definition session_or_new :: "ContainerInput \<Rightarrow> string" where
  "session_or_new inp =
     (case sessionId inp of Some sid \<Rightarrow> if sid \<noteq> [] then sid else ''new'' | None \<Rightarrow> ''new'')"

text \<open>\<open>agent.on('close', (code) => ...)\<close>; \<open>code\<close> is \<open>None\<close> for the source's \<open>null\<close>
  (the process was ended by a signal).\<close>

definition on_close :: "invocation \<Rightarrow> nat option \<Rightarrow> agent_run \<Rightarrow> agent_run" where
  "on_close i code s0 =
     (let s = s0\<lparr>timeout := None\<rparr> in
      if timedOut s then
        let s1 = s\<lparr>effects := effects s @ [File_write (Timeout_log code (hadStreamingOutput s))]\<rparr> in
        if hadStreamingOutput s1 then chain_then (Settle (soft_success s1)) s1
        else resolve (error_output (''Agent timed out after '' @ show_nat (configTimeout i) @ ''ms'')) s1
      else
        let isError = (code \<noteq> Some 0);
            detail = (if i_verbose i \<or> isError then Full (input s) (stderr s) (stdout s)
                      else Summary (length (prompt (input s))) (session_or_new (input s)));
            s1 = s\<lparr>effects := effects s @
                   [File_write (Run_log code (stdoutTruncated s) (stderrTruncated s) detail)]\<rparr> in
        if code \<noteq> Some 0 then
          resolve (error_output (''Agent exited with code '' @ show_code code @ '': ''
                                  @ slice_last 200 (stderr s1))) s1
        else if i_onOutput i then chain_then (Settle (soft_success s1)) s1
        else (case i_parse i (legacy_jsonLine (stdout s1)) of
                Inr output \<Rightarrow> resolve output s1
              | Inl msg \<Rightarrow> resolve (error_output (''Failed to parse agent output: '' @ msg)) s1))"

text \<open>\<open>agent.on('error', (err) => ...)\<close>.\<close>

definition on_error :: "string \<Rightarrow> agent_run \<Rightarrow> agent_run" where
  "on_error msg s = resolve (error_output (''Agent spawn error: '' @ msg)) (s\<lparr>timeout := None\<rparr>)"

subsection \<open>The spawn\<close>

text \<open>
  The body of the promise executor up to the first suspension: the variables are
  initialised, the secrets are put into the input object, the object is written to the
  worker's stdin, the secrets are deleted from it, and the timer is set.
\<close>

definition fresh :: "ContainerInput \<Rightarrow> agent_run" where
  "fresh inp = \<lparr> input = inp, stdout = [], stderr = [], stdoutTruncated = False,
     stderrTruncated = False, parseBuffer = [], newSessionId_var = None, outputChain = [],
     chain_rejected = False, timedOut = False, hadStreamingOutput = False, timeout = None,
     now = 0, resolved = None, framed = [], effects = [] \<rparr>"

definition set_secrets :: "invocation \<Rightarrow> agent_run \<Rightarrow> agent_run" where
  "set_secrets i s = s\<lparr>input := (input s)\<lparr>secrets := Some (i_secrets i)\<rparr>\<rparr>"

definition write_stdin :: "agent_run \<Rightarrow> agent_run" where
  "write_stdin s = s\<lparr>effects := effects s @ [Stdin_write (input s), Stdin_end]\<rparr>"

definition delete_secrets :: "agent_run \<Rightarrow> agent_run" where
  "delete_secrets s = s\<lparr>input := (input s)\<lparr>secrets := None\<rparr>\<rparr>"

definition spawn :: "invocation \<Rightarrow> ContainerInput \<Rightarrow> agent_run" where
  "spawn i inp = resetTimeout i (delete_secrets (write_stdin (set_secrets i (fresh inp))))"

subsection \<open>Runs\<close>

text \<open>
  What happens after the spawn: data on stdout or stderr, the promise of the running
  callback settling, the process closing, the process reporting an error, or nothing.
  Each event comes with the time passed since the previous one; the timer fires first
  when it is due.
\<close>

datatype event =
    Stdout string
  | Stderr string
  | Settled io
  | Closed "nat option"
  | Failed string
  | Tick

fun handle :: "invocation \<Rightarrow> event \<Rightarrow> agent_run \<Rightarrow> agent_run" where
  "handle i (Stdout chunk) s = on_stdout i chunk s"
| "handle i (Stderr chunk) s = on_stderr i chunk s"
| "handle i (Settled r) s = callback_settled r s"
| "handle i (Closed code) s = on_close i code s"
| "handle i (Failed msg) s = on_error msg s"
| "handle i Tick s = s"

definition step :: "invocation \<Rightarrow> nat \<times> event \<Rightarrow> agent_run \<Rightarrow> agent_run" where
  "step i te s = handle i (snd te) (advance (fst te) s)"

fun run :: "invocation \<Rightarrow> (nat \<times> event) list \<Rightarrow> agent_run \<Rightarrow> agent_run" where
  "run i [] s = s"
| "run i (te # tes) s = run i tes (step i te s)"

section \<open>Inbound messages\<close>

text \<open>
  What a channel hands to its owner: the two callbacks of its options, and for Telegram
  the replies of the two commands. \<open>timestamp\<close> holds the milliseconds the source passes
  to \<open>new Date(...)\<close>; the ISO text is a rendering of that number.
\<close>

record InboundMessage =
  msg_id :: string
  chat_jid :: string
  sender :: string
  sender_name :: string
  content :: string
  timestamp :: nat
  is_from_me :: bool
  is_bot_message :: "bool option"

datatype callback =
    OnChatMetadata string nat "string option"
  | OnMessage string InboundMessage
  | Reply string

text \<open>\<open>a || b\<close> on strings that may be missing: the first one that is present and not
  empty.\<close>

definition truthy :: "string option \<Rightarrow> bool" where
  "truthy a = (case a of Some x \<Rightarrow> x \<noteq> [] | None \<Rightarrow> False)"

definition or_else :: "string option \<Rightarrow> string \<Rightarrow> string" where
  "or_else a b = (case a of Some x \<Rightarrow> if x \<noteq> [] then x else b | None \<Rightarrow> b)"

subsection \<open>WhatsApp: the handler of \<open>messages.upsert\<close>\<close>

text \<open>
  The fields of a Baileys message the handler reads. \<open>imageMessage\<close> and \<open>videoMessage\<close>
  are \<open>None\<close> when the message has no such part and hold the caption, if any, otherwise;
  \<open>audio_ptt\<close> is \<open>msg.message?.audioMessage?.ptt === true\<close>.
\<close>

record WAMessage =
  has_message :: bool
  remoteJid :: "string option"
  participant :: "string option"
  key_id :: "string option"
  fromMe :: "bool option"
  pushName :: "string option"
  messageTimestamp :: nat
  conversation :: "string option"
  extendedText :: "string option"
  imageMessage :: "string option option"
  videoMessage :: "string option option"
  audio_ptt :: bool

definition isVoiceMessage :: "WAMessage \<Rightarrow> bool" where
  "isVoiceMessage msg = audio_ptt msg"

text \<open>How \<open>transcribeAudioMessage\<close> ends: with a string or \<open>null\<close>, or with an exception.\<close>

datatype transcription = Transcript "string option" | Transcript_throws

definition media_content :: "WAMessage \<Rightarrow> string" where
  "media_content msg =
     (let imageCaption = (case imageMessage msg of Some c \<Rightarrow> c | None \<Rightarrow> None);
          videoCaption = (case videoMessage msg of Some c \<Rightarrow> c | None \<Rightarrow> None);
          content = or_else (conversation msg) (or_else (extendedText msg) [])
      in if content = [] \<and> imageMessage msg \<noteq> None then
           (if truthy imageCaption then ''[Image: '' @ the imageCaption @ '']'' else ''[Image]'')
         else if content = [] \<and> videoMessage msg \<noteq> None then
           (if truthy videoCaption then ''[Video: '' @ the videoCaption @ '']'' else ''[Video]'')
         else if truthy imageCaption \<and> content = [] then the imageCaption
         else if truthy videoCaption \<and> content = [] then the videoCaption
         else content)"

definition voice_content :: "transcription \<Rightarrow> string" where
  "voice_content tr =
     (case tr of
        Transcript t \<Rightarrow>
          if truthy t then ''[Voice: '' @ the t @ '']''
          else ''[Voice Message - transcription unavailable]''
      | Transcript_throws \<Rightarrow> ''[Voice Message - transcription failed]'')"

text \<open>The call of \<open>onMessage\<close> that ends the loop body, for a message with the given
  content.\<close>

definition wa_deliver :: "config \<Rightarrow> string \<Rightarrow> WAMessage \<Rightarrow> string \<Rightarrow> callback" where
  "wa_deliver cfg jid msg body =
     (let sender = or_else (participant msg) (or_else (remoteJid msg) []);
          senderName = or_else (pushName msg) (split_first CHR ''@'' sender);
          from_me = (case fromMe msg of Some b \<Rightarrow> b | None \<Rightarrow> False);
          isBotMessage = (if ASSISTANT_HAS_OWN_NUMBER cfg then from_me
                          else startsWith body (ASSISTANT_NAME cfg @ '':''))
      in OnMessage jid
           \<lparr> msg_id = or_else (key_id msg) [], chat_jid = jid, sender = sender,
             sender_name = senderName, content = body,
             timestamp = messageTimestamp msg * 1000,
             is_from_me = from_me, is_bot_message = Some isBotMessage \<rparr>)"

text \<open>
  For a voice message the loop body suspends at \<open>await transcribeAudioMessage\<close>, after
  it has read the registry and before it calls \<open>onMessage\<close>. What the suspended body
  holds: its constant \<open>groups\<close>, the chat and the message.
\<close>

record wa_voice =
  v_groups :: "string \<rightharpoonup> RegisteredGroup"
  v_chatJid :: string
  v_msg :: WAMessage

text \<open>
  The body of the loop for one message, up to the transcription if the message is a voice
  message of a registered chat and to its end otherwise. \<open>groups\<close> is what
  \<open>registeredGroups()\<close> returns when the body calls it, and \<open>reply\<close> what the socket
  answers if \<open>translateJid\<close> asks it. \<open>groups[chatJid]\<close> is looked up as a map, without
  the properties a JavaScript object inherits. The image cache and the contact table the
  handler also writes are left out. The result is the callbacks called, the suspended
  body if there is one, and the channel.
\<close>

definition wa_on_message ::
  "config \<Rightarrow> (string \<rightharpoonup> RegisteredGroup) \<Rightarrow> pn_reply \<Rightarrow> WAMessage \<Rightarrow> WhatsAppChannel
   \<Rightarrow> (callback list \<times> wa_voice option) \<times> WhatsAppChannel" where
  "wa_on_message cfg groups reply msg s =
     (if \<not> has_message msg then (([], None), s)
      else if \<not> truthy (remoteJid msg) \<or> remoteJid msg = Some ''status@broadcast''
      then (([], None), s)
      else
        let rawJid = the (remoteJid msg);
            (chatJid, s1) = translateJid rawJid reply s;
            meta = OnChatMetadata chatJid (messageTimestamp msg * 1000) None
        in if groups chatJid \<noteq> None then
             if isVoiceMessage msg
             then (([meta], Some \<lparr> v_groups = groups, v_chatJid = chatJid, v_msg = msg \<rparr>), s1)
             else (([meta, wa_deliver cfg chatJid msg (media_content msg)], None), s1)
           else (([meta], None), s1))"

text \<open>The rest of a suspended body: \<open>tr\<close> is how the transcription ended.\<close>

definition wa_on_transcribed :: "config \<Rightarrow> transcription \<Rightarrow> wa_voice \<Rightarrow> callback" where
  "wa_on_transcribed cfg tr v = wa_deliver cfg (v_chatJid v) (v_msg v) (voice_content tr)"

subsection \<open>Telegram: the handlers of \<open>registerHandlers\<close>\<close>

definition show_int :: "int \<Rightarrow> string" where
  "show_int k = (if k < 0 then ''-'' @ show_nat (nat (- k)) else show_nat (nat k))"

text \<open>\<open>toLowerCase\<close> on the ASCII letters.\<close>

definition toLowerCase :: "string \<Rightarrow> string" where
  "toLowerCase s =
     map (\<lambda>c. if 65 \<le> (of_char c :: nat) \<and> (of_char c :: nat) \<le> 90
               then char_of ((of_char c :: nat) + 32) else c) s"

text \<open>
  Which of the registered handlers grammy runs for an update is the library's decision
  and part of the update here: one of the two commands, the text handler, one of the
  handlers for other kinds of message (a document with its file name, a sticker with
  its emoji), or none.
\<close>

datatype tg_route =
    Cmd_chatid
  | Cmd_ping
  | Msg_text
  | Msg_photo
  | Msg_video
  | Msg_voice
  | Msg_audio
  | Msg_document "string option"
  | Msg_sticker "string option"
  | Msg_location
  | Msg_contact
  | Unhandled

text \<open>The fields of a grammy context the handlers read. An entity is its type, offset
  and length.\<close>

record tg_ctx =
  route :: tg_route
  chat_id :: int
  chat_type :: string
  chat_title :: "string option"
  from_id :: "int option"
  from_first_name :: "string option"
  from_username :: "string option"
  msg_text :: string
  msg_date :: nat
  message_id :: nat
  entities :: "(string \<times> nat \<times> nat) list"
  caption :: "string option"
  me_username :: "string option"

definition tg_jid :: "int \<Rightarrow> string" where
  "tg_jid k = ''tg:'' @ show_int k"

definition isAllowedSender :: "(string \<rightharpoonup> RegisteredGroup) \<Rightarrow> tg_ctx \<Rightarrow> bool" where
  "isAllowedSender groups ctx =
     (if groups (tg_jid (chat_id ctx)) \<noteq> None then True
      else case from_id ctx of
             Some senderId \<Rightarrow> senderId \<noteq> 0 \<and> groups (tg_jid senderId) \<noteq> None
           | None \<Rightarrow> False)"

definition tg_sender_name :: "tg_ctx \<Rightarrow> string" where
  "tg_sender_name ctx =
     or_else (from_first_name ctx)
       (or_else (from_username ctx)
          (or_else (map_option show_int (from_id ctx)) ''Unknown''))"

definition tg_sender :: "tg_ctx \<Rightarrow> string" where
  "tg_sender ctx = or_else (map_option show_int (from_id ctx)) []"

definition tg_text_content :: "config \<Rightarrow> (string \<Rightarrow> bool) \<Rightarrow> tg_ctx \<Rightarrow> string" where
  "tg_text_content cfg trigger ctx =
     (let content = msg_text ctx in
      case map_option toLowerCase (me_username ctx) of
        Some botUsername \<Rightarrow>
          if botUsername \<noteq> [] then
            let isBotMentioned =
                  list_ex (\<lambda>(ty, off, len).
                     ty = ''mention'' \<and> toLowerCase (slice off (off + len) content) = ''@'' @ botUsername)
                    (entities ctx)
            in if isBotMentioned \<and> \<not> trigger content
               then ''@'' @ ASSISTANT_NAME cfg @ '' '' @ content else content
          else content
      | None \<Rightarrow> content)"

text \<open>The handler of \<open>message:text\<close>.\<close>

definition tg_on_text ::
  "config \<Rightarrow> (string \<Rightarrow> bool) \<Rightarrow> (string \<rightharpoonup> RegisteredGroup) \<Rightarrow> tg_ctx \<Rightarrow> callback list" where
  "tg_on_text cfg trigger groups ctx =
     (if startsWith (msg_text ctx) ''/'' then []
      else
        let chatJid = tg_jid (chat_id ctx);
            ts = msg_date ctx * 1000;
            senderName = tg_sender_name ctx;
            chatName = (if chat_type ctx = ''private'' then senderName
                        else or_else (chat_title ctx) chatJid);
            meta = OnChatMetadata chatJid ts (Some chatName)
        in if groups chatJid = None then [meta]
           else [meta,
                 OnMessage chatJid
                   \<lparr> msg_id = show_nat (message_id ctx), chat_jid = chatJid,
                     sender = tg_sender ctx, sender_name = senderName,
                     content = tg_text_content cfg trigger ctx, timestamp = ts,
                     is_from_me = False, is_bot_message = None \<rparr>])"

text \<open>The call of \<open>onMessage\<close> in \<open>storeNonText\<close> and in the handler of
  \<open>message:voice\<close>, for the given content.\<close>

definition tg_message :: "tg_ctx \<Rightarrow> string \<Rightarrow> callback" where
  "tg_message ctx text =
     OnMessage (tg_jid (chat_id ctx))
       \<lparr> msg_id = show_nat (message_id ctx), chat_jid = tg_jid (chat_id ctx),
         sender = tg_sender ctx, sender_name = tg_sender_name ctx,
         content = text, timestamp = msg_date ctx * 1000, is_from_me = False,
         is_bot_message = None \<rparr>"

text \<open>\<open>storeNonText\<close>.\<close>

definition tg_store ::
  "(string \<rightharpoonup> RegisteredGroup) \<Rightarrow> tg_ctx \<Rightarrow> string \<Rightarrow> callback list" where
  "tg_store groups ctx text =
     (let chatJid = tg_jid (chat_id ctx) in
      if groups chatJid = None then []
      else [OnChatMetadata chatJid (msg_date ctx * 1000) None, tg_message ctx text])"

definition storeNonText ::
  "(string \<rightharpoonup> RegisteredGroup) \<Rightarrow> tg_ctx \<Rightarrow> string \<Rightarrow> callback list" where
  "storeNonText groups ctx placeholder =
     tg_store groups ctx
       (placeholder @ (if truthy (caption ctx) then '' '' @ the (caption ctx) else []))"

text \<open>
  The handler of \<open>message:voice\<close> suspends at \<open>await ctx.getFile()\<close>, after it has read
  the registry and called \<open>onChatMetadata\<close>, and calls \<open>onMessage\<close> when the download
  and the transcription are over. What the suspended handler holds: the registry it read
  and the context. \<open>tg_on_voice\<close> is the handler up to the first await and
  \<open>tg_on_transcribed\<close> the rest of it, where \<open>transcript\<close> is the transcript if the
  download and the transcription gave one.
\<close>

record tg_voice =
  t_groups :: "string \<rightharpoonup> RegisteredGroup"
  t_ctx :: tg_ctx

definition tg_on_voice ::
  "(string \<rightharpoonup> RegisteredGroup) \<Rightarrow> tg_ctx \<Rightarrow> callback list \<times> tg_voice option" where
  "tg_on_voice groups ctx =
     (let chatJid = tg_jid (chat_id ctx) in
      if groups chatJid = None then ([], None)
      else ([OnChatMetadata chatJid (msg_date ctx * 1000) None],
            Some \<lparr> t_groups = groups, t_ctx = ctx \<rparr>))"

definition tg_on_transcribed :: "string option \<Rightarrow> tg_voice \<Rightarrow> callback" where
  "tg_on_transcribed transcript v =
     tg_message (t_ctx v)
       (if truthy transcript then ''[Voice message] '' @ the transcript else ''[Voice message]'')"

definition tg_on_chatid :: "tg_ctx \<Rightarrow> callback list" where
  "tg_on_chatid ctx =
     (let chatName = (if chat_type ctx = ''private'' then or_else (from_first_name ctx) ''Private''
                      else or_else (chat_title ctx) ''Unknown'')
      in [Reply (''Chat ID: `tg:'' @ show_int (chat_id ctx) @ ''`'' @ [CHR 0x0A] @ ''Name: '' @ chatName
                 @ [CHR 0x0A] @ ''Type: '' @ chat_type ctx)])"

text \<open>One update, up to the first await of its handler: the middleware installed with
  \<open>bot.use\<close> runs first and drops the update of a sender that is not allowed; otherwise
  the handler grammy selected runs. Only the handler of \<open>message:voice\<close> suspends.\<close>

definition tg_handle ::
  "config \<Rightarrow> (string \<Rightarrow> bool) \<Rightarrow> (string \<rightharpoonup> RegisteredGroup) \<Rightarrow> tg_ctx
   \<Rightarrow> callback list \<times> tg_voice option" where
  "tg_handle cfg trigger groups ctx =
     (if \<not> isAllowedSender groups ctx then ([], None)
      else case route ctx of
        Cmd_chatid \<Rightarrow> (tg_on_chatid ctx, None)
      | Cmd_ping \<Rightarrow> ([Reply (ASSISTANT_NAME cfg @ '' is online.'')], None)
      | Msg_text \<Rightarrow> (tg_on_text cfg trigger groups ctx, None)
      | Msg_photo \<Rightarrow> (storeNonText groups ctx ''[Photo]'', None)
      | Msg_video \<Rightarrow> (storeNonText groups ctx ''[Video]'', None)
      | Msg_voice \<Rightarrow> tg_on_voice groups ctx
      | Msg_audio \<Rightarrow> (storeNonText groups ctx ''[Audio]'', None)
      | Msg_document fname \<Rightarrow>
          (storeNonText groups ctx (''[Document: '' @ or_else fname ''file'' @ '']''), None)
      | Msg_sticker emoji \<Rightarrow>
          (storeNonText groups ctx
             (''[Sticker '' @ (case emoji of Some e \<Rightarrow> e | None \<Rightarrow> []) @ '']''), None)
      | Msg_location \<Rightarrow> (storeNonText groups ctx ''[Location]'', None)
      | Msg_contact \<Rightarrow> (storeNonText groups ctx ''[Contact]'', None)
      | Unhandled \<Rightarrow> ([], None))"

text \<open>The chats a list of callbacks delivers a message to.\<close>

fun delivered_to :: "callback list \<Rightarrow> string list" where
  "delivered_to [] = []"
| "delivered_to (OnMessage jid m # cs) = jid # delivered_to cs"
| "delivered_to (c # cs) = delivered_to cs"

subsection \<open>The two channels and the registry over time\<close>

text \<open>
  \<open>registeredGroups()\<close> returns the registry of the moment it is called, and the owner of
  the channels changes the registry as chats are registered and removed. The state below
  holds the registry, the WhatsApp channel, and the suspended handlers of voice messages;
  \<open>called\<close> lists the callbacks the channels have called, and \<open>delivered\<close> notes for
  each call of \<open>onMessage\<close> the chat, whether the handler had awaited a transcription
  before the call, and whether the chat was a key of the registry the handler read and of
  the registry of the moment of the call.
\<close>

record delivery =
  to_chat :: string
  awaited :: bool
  key_at_read :: bool
  key_at_delivery :: bool

record inbound =
  registry :: "string \<rightharpoonup> RegisteredGroup"
  wa_chan :: WhatsAppChannel
  wa_waiting :: "wa_voice list"
  tg_waiting :: "tg_voice list"
  called :: "callback list"
  delivered :: "delivery list"

definition inbound_init :: "(string \<rightharpoonup> RegisteredGroup) \<Rightarrow> WhatsAppChannel \<Rightarrow> inbound" where
  "inbound_init g s = \<lparr> registry = g, wa_chan = s, wa_waiting = [], tg_waiting = [],
     called = [], delivered = [] \<rparr>"

text \<open>The channel calls the callbacks \<open>cs\<close>; \<open>groups\<close> is the registry the handler
  read.\<close>

definition call :: "bool \<Rightarrow> (string \<rightharpoonup> RegisteredGroup) \<Rightarrow> callback list \<Rightarrow> inbound \<Rightarrow> inbound" where
  "call late groups cs w =
     w\<lparr>called := called w @ cs,
       delivered := delivered w @
         map (\<lambda>jid. \<lparr> to_chat = jid, awaited = late, key_at_read = (groups jid \<noteq> None),
                       key_at_delivery = (registry w jid \<noteq> None) \<rparr>)
           (delivered_to cs)\<rparr>"

text \<open>
  What happens: the owner changes the registry, WhatsApp hands a message to the loop body,
  the transcription of the \<open>k\<close>-th suspended WhatsApp voice message ends, Telegram hands
  an update to the handlers, the download and transcription of the \<open>k\<close>-th suspended
  Telegram voice message end.
\<close>

datatype inbound_event =
    Registry_is "string \<rightharpoonup> RegisteredGroup"
  | Wa_message pn_reply WAMessage
  | Wa_transcribed nat transcription
  | Tg_update tg_ctx
  | Tg_transcribed nat "string option"

fun inbound_step :: "config \<Rightarrow> (string \<Rightarrow> bool) \<Rightarrow> inbound_event \<Rightarrow> inbound \<Rightarrow> inbound" where
  "inbound_step cfg trigger (Registry_is g) w = w\<lparr>registry := g\<rparr>"
| "inbound_step cfg trigger (Wa_message reply msg) w =
     (let r = wa_on_message cfg (registry w) reply msg (wa_chan w) in
      call False (registry w) (fst (fst r))
        (w\<lparr>wa_chan := snd r,
           wa_waiting := wa_waiting w @ (case snd (fst r) of None \<Rightarrow> [] | Some v \<Rightarrow> [v])\<rparr>))"
| "inbound_step cfg trigger (Wa_transcribed k tr) w =
     (if k < length (wa_waiting w) then
        call True (v_groups (wa_waiting w ! k)) [wa_on_transcribed cfg tr (wa_waiting w ! k)]
          (w\<lparr>wa_waiting := take k (wa_waiting w) @ drop (Suc k) (wa_waiting w)\<rparr>)
      else w)"
| "inbound_step cfg trigger (Tg_update ctx) w =
     (let r = tg_handle cfg trigger (registry w) ctx in
      call False (registry w) (fst r)
        (w\<lparr>tg_waiting := tg_waiting w @ (case snd r of None \<Rightarrow> [] | Some v \<Rightarrow> [v])\<rparr>))"
| "inbound_step cfg trigger (Tg_transcribed k transcript) w =
     (if k < length (tg_waiting w) then
        call True (t_groups (tg_waiting w ! k)) [tg_on_transcribed transcript (tg_waiting w ! k)]
          (w\<lparr>tg_waiting := take k (tg_waiting w) @ drop (Suc k) (tg_waiting w)\<rparr>)
      else w)"

fun inbound_run :: "config \<Rightarrow> (string \<Rightarrow> bool) \<Rightarrow> inbound_event list \<Rightarrow> inbound \<Rightarrow> inbound" where
  "inbound_run cfg trigger [] w = w"
| "inbound_run cfg trigger (e # es) w = inbound_run cfg trigger es (inbound_step cfg trigger e w)"

text \<open>The invariant of the state: every suspended handler holds a registry of which its
  chat is a key, and every message was delivered to a chat that was a key of the registry
  its handler read, which is the registry of the moment of the call unless the handler
  had awaited a transcription.\<close>

definition delivery_ok :: "delivery \<Rightarrow> bool" where
  "delivery_ok d = (key_at_read d \<and> (awaited d \<or> key_at_delivery d))"

definition inbound_inv :: "inbound \<Rightarrow> bool" where
  "inbound_inv w =
     (list_all (\<lambda>v. v_groups v (v_chatJid v) \<noteq> None) (wa_waiting w)
      \<and> list_all (\<lambda>v. t_groups v (tg_jid (chat_id (t_ctx v))) \<noteq> None) (tg_waiting w)
      \<and> list_all delivery_ok (delivered w))"

section \<open>Notions for stating the properties of a run\<close>

text \<open>An event that is not the rejection of a delivery.\<close>

fun calm :: "event \<Rightarrow> bool" where
  "calm (Settled Throws) = False"
| "calm e = True"

text \<open>An event other than the close of the worker, and an event other than the worker's
  error event.\<close>

fun unclosed :: "event \<Rightarrow> bool" where
  "unclosed (Closed code) = False"
| "unclosed e = True"

fun unfailing :: "event \<Rightarrow> bool" where
  "unfailing (Failed msg) = False"
| "unfailing e = True"

text \<open>An event of a run in which the worker is still running: it has neither closed nor
  reported an error.\<close>

fun running :: "event \<Rightarrow> bool" where
  "running (Closed code) = False"
| "running (Failed msg) = False"
| "running e = True"

text \<open>
  \<open>paced i D idle tes s\<close>: in the run of \<open>tes\<close> from \<open>s\<close>, where \<open>idle\<close> milliseconds
  have passed since the last event was streamed (since the spawn if none was), the time
  passed since the last streamed event is below \<open>D\<close> whenever an event of the run
  arrives. An event was streamed in a step when \<open>framed\<close> has grown.
\<close>

fun paced :: "invocation \<Rightarrow> nat \<Rightarrow> nat \<Rightarrow> (nat \<times> event) list \<Rightarrow> agent_run \<Rightarrow> bool" where
  "paced i D idle [] s = True"
| "paced i D idle (te # tes) s =
     (idle + fst te < D
      \<and> paced i D (if framed (step i te s) = framed s then idle + fst te else 0) tes (step i te s))"

text \<open>Everything the worker wrote to stdout during a run.\<close>

fun received :: "(nat \<times> event) list \<Rightarrow> string" where
  "received [] = []"
| "received ((dt, Stdout chunk) # tes) = chunk @ received tes"
| "received (te # tes) = received tes"

text \<open>The deliveries a chain still holds, the part of a trace of effects that concerns
  deliveries, and the trace of delivering a list of events one after the other.\<close>

fun delivers :: "task list \<Rightarrow> ContainerOutput list" where
  "delivers [] = []"
| "delivers (Deliver e # ts) = e # delivers ts"
| "delivers (Settle r # ts) = delivers ts"

fun deliveries :: "effect list \<Rightarrow> effect list" where
  "deliveries [] = []"
| "deliveries (Deliver_begin e # fs) = Deliver_begin e # deliveries fs"
| "deliveries (Deliver_end e r # fs) = Deliver_end e r # deliveries fs"
| "deliveries (f # fs) = deliveries fs"

fun one_by_one :: "ContainerOutput list \<Rightarrow> effect list" where
  "one_by_one [] = []"
| "one_by_one (e # es) = Deliver_begin e # Deliver_end e Done # one_by_one es"

text \<open>The delivery that has begun and not ended, if the chain holds one.\<close>

definition in_flight :: "task list \<Rightarrow> effect list" where
  "in_flight ts = (case delivers ts of [] \<Rightarrow> [] | e # es \<Rightarrow> [Deliver_begin e])"

text \<open>The inputs a trace of effects wrote to the worker's stdin, and the inputs it wrote
  to a file.\<close>

fun stdin_writes :: "effect list \<Rightarrow> ContainerInput list" where
  "stdin_writes [] = []"
| "stdin_writes (Stdin_write x # fs) = x # stdin_writes fs"
| "stdin_writes (f # fs) = stdin_writes fs"

fun disk_inputs :: "effect list \<Rightarrow> ContainerInput list" where
  "disk_inputs [] = []"
| "disk_inputs (File_write (Run_log code a b (Full x err out)) # fs) = x # disk_inputs fs"
| "disk_inputs (f # fs) = disk_inputs fs"

fun file_writes :: "effect list \<Rightarrow> log_file list" where
  "file_writes [] = []"
| "file_writes (File_write l # fs) = l # file_writes fs"
| "file_writes (f # fs) = file_writes fs"

text \<open>
  The scanning loop as a function of the buffer alone: the strings between the marker
  pairs it finds, in order, and the buffer it leaves.
\<close>

function scan :: "string \<Rightarrow> string list \<times> string" where
  "scan buf =
     (case indexOf OUTPUT_START_MARKER buf of
        None \<Rightarrow> ([], buf)
      | Some startIdx \<Rightarrow>
          (case indexOf_from OUTPUT_END_MARKER startIdx buf of
             None \<Rightarrow> ([], buf)
           | Some endIdx \<Rightarrow>
               let r = scan (slice_from (endIdx + length OUTPUT_END_MARKER) buf)
               in (trim (slice (startIdx + length OUTPUT_START_MARKER) endIdx buf) # fst r, snd r)))"
  by pat_completeness auto
termination
proof (relation "measure length")
  show "wf (measure (length :: string \<Rightarrow> nat))"
    by simp
next
  fix buf :: string and startIdx endIdx :: nat
  assume e: "indexOf_from OUTPUT_END_MARKER startIdx buf = Some endIdx"
  have aux: "indexOf_aux m xs k = Some j \<Longrightarrow> j + length m \<le> k + length xs" for m xs k j
  proof (induction xs arbitrary: k)
    case Nil
    then show ?case by (simp split: if_splits)
  next
    case (Cons c cs)
    show ?case
    proof (cases "take (length m) (c # cs) = m")
      case True
      then have "length m \<le> length (c # cs)"
        by (metis length_take min.absorb_iff2 min.commute)
      with True Cons.prems show ?thesis by simp
    next
      case False
      with Cons.prems have "indexOf_aux m cs (Suc k) = Some j" by simp
      then have "j + length m \<le> Suc k + length cs" by (rule Cons.IH)
      then show ?thesis by simp
    qed
  qed
  have bound: "endIdx + length OUTPUT_END_MARKER \<le> length buf"
    using aux [OF e [unfolded indexOf_from_def]] by simp
  have pos: "0 < length OUTPUT_END_MARKER"
    by (simp add: OUTPUT_END_MARKER_def)
  have "length buf - (endIdx + length OUTPUT_END_MARKER) < length buf"
    using bound pos by linarith
  then show "(slice_from (endIdx + length OUTPUT_END_MARKER) buf, buf) \<in> measure length"
    by (simp add: slice_from_def)
qed

text \<open>The events \<open>JSON.parse\<close> makes of a list of strings; a string it rejects gives
  none.\<close>

fun parsed :: "invocation \<Rightarrow> string list \<Rightarrow> ContainerOutput list" where
  "parsed i [] = []"
| "parsed i (j # js) = (case i_parse i j of Inr e \<Rightarrow> e # parsed i js | Inl msg \<Rightarrow> parsed i js)"

text \<open>
  The state of the deliveries. \<open>orderly\<close>: the chain has not been rejected, the callback
  that runs is a delivery, and the events parsed so far are those delivered, one after
  the other, followed by those the chain still holds, of which only the first has begun.
  \<open>quiet\<close>: moreover the promise is unsettled, the chain holds deliveries only, and
  \<open>hadStreamingOutput\<close> tells whether an event was parsed.
\<close>

definition head_ok :: "task list \<Rightarrow> bool" where
  "head_ok ts = (case ts of Settle r # rest \<Rightarrow> False | _ \<Rightarrow> True)"

definition orderly_with :: "ContainerOutput list \<Rightarrow> agent_run \<Rightarrow> bool" where
  "orderly_with finished s =
     (\<not> chain_rejected s \<and> head_ok (outputChain s)
      \<and> framed s = finished @ delivers (outputChain s)
      \<and> deliveries (effects s) = one_by_one finished @ in_flight (outputChain s))"

definition orderly :: "agent_run \<Rightarrow> bool" where
  "orderly s = (\<exists>finished. orderly_with finished s)"

text \<open>
  \<open>broken\<close>: a delivery has rejected. The chain is empty, and the deliveries are those
  of the events that finished, one after the other, followed by the one that rejected;
  the events parsed after it were not delivered. \<open>shape\<close>: the chain holds deliveries
  only and \<open>hadStreamingOutput\<close> tells whether an event was parsed. \<open>stuck\<close>: the timer
  has fired, an event was streamed, a delivery has rejected and the promise is unsettled.
\<close>

definition broken :: "agent_run \<Rightarrow> bool" where
  "broken s =
     (chain_rejected s \<and> outputChain s = []
      \<and> (\<exists>finished e rest. framed s = finished @ e # rest
            \<and> deliveries (effects s)
                = one_by_one finished @ [Deliver_begin e, Deliver_end e Throws]))"

definition shape :: "agent_run \<Rightarrow> bool" where
  "shape s =
     (outputChain s = map Deliver (delivers (outputChain s))
      \<and> (hadStreamingOutput s \<longleftrightarrow> framed s \<noteq> []))"

definition stuck :: "agent_run \<Rightarrow> bool" where
  "stuck s =
     (chain_rejected s \<and> outputChain s = [] \<and> resolved s = None \<and> timedOut s
      \<and> hadStreamingOutput s)"

definition quiet :: "agent_run \<Rightarrow> bool" where
  "quiet s =
     (resolved s = None \<and> outputChain s = map Deliver (delivers (outputChain s))
      \<and> (hadStreamingOutput s \<longleftrightarrow> framed s \<noteq> []))"

text \<open>Everything the worker wrote to stderr during a run.\<close>

fun received_err :: "(nat \<times> event) list \<Rightarrow> string" where
  "received_err [] = []"
| "received_err ((dt, Stderr chunk) # tes) = chunk @ received_err tes"
| "received_err (te # tes) = received_err tes"

text \<open>What a run has captured and parsed, in terms of what the worker wrote: each
  stream is captured up to the ceiling and flagged when more was written; with a
  callback, the events are those of scanning everything written to stdout.\<close>

definition captured :: "invocation \<Rightarrow> (nat \<times> event) list \<Rightarrow> agent_run \<Rightarrow> bool" where
  "captured i tes s =
     (stdout s = take (CONTAINER_MAX_OUTPUT_SIZE (i_cfg i)) (received tes)
      \<and> (stdoutTruncated s \<longleftrightarrow> CONTAINER_MAX_OUTPUT_SIZE (i_cfg i) < length (received tes))
      \<and> stderr s = take (CONTAINER_MAX_OUTPUT_SIZE (i_cfg i)) (received_err tes)
      \<and> (stderrTruncated s \<longleftrightarrow> CONTAINER_MAX_OUTPUT_SIZE (i_cfg i) < length (received_err tes))
      \<and> (i_onOutput i \<longrightarrow>
            framed s = parsed i (fst (scan (received tes)))
          \<and> parseBuffer s = snd (scan (received tes))))"

text \<open>
  Invariants of a run. \<open>sealed\<close>: the input object holds no secrets, no file was
  written with an input that holds secrets, and stdin received the input with the secrets
  once. \<open>kill_logged\<close>: the timer has fired exactly when the signal was sent.
  \<open>armed\<close>: the worker was timed out, or the timer is pending and due within
  the timer's delay from now. \<open>same_capture\<close>: two states agree on what was captured and
  parsed.
\<close>

definition sealed :: "ContainerInput \<Rightarrow> invocation \<Rightarrow> agent_run \<Rightarrow> bool" where
  "sealed inp i s = (secrets (input s) = None
     \<and> list_all (\<lambda>x. secrets x = None) (disk_inputs (effects s))
     \<and> stdin_writes (effects s) = [inp\<lparr>secrets := Some (i_secrets i)\<rparr>])"

definition kill_logged :: "agent_run \<Rightarrow> bool" where
  "kill_logged s = (timedOut s \<longleftrightarrow> Kill SIGTERM \<in> set (effects s))"

definition armed :: "invocation \<Rightarrow> agent_run \<Rightarrow> bool" where
  "armed i s = (timedOut s
     \<or> (\<exists>d. timeout s = Some d \<and> now s < d \<and> d \<le> now s + timer_delay (timeoutMs i)))"

definition same_capture :: "agent_run \<Rightarrow> agent_run \<Rightarrow> bool" where
  "same_capture t s = (framed t = framed s \<and> parseBuffer t = parseBuffer s
     \<and> stdout t = stdout s \<and> stdoutTruncated t = stdoutTruncated s
     \<and> stderr t = stderr s \<and> stderrTruncated t = stderrTruncated s)"

section \<open>Sample values\<close>

text \<open>
  Concrete values on which the theorems below are instantiated: a configuration with a
  timeout of 100 seconds, an idle timeout of 60 seconds and room for 100 characters of
  output per stream; two payloads with the events \<open>JSON.parse\<close> makes of them; the text
  the worker writes around a payload; an invocation in streaming mode and one in legacy
  mode; and an input.
\<close>

definition sample_cfg :: config where
  "sample_cfg = \<lparr> ASSISTANT_HAS_OWN_NUMBER = False, ASSISTANT_NAME = ''Smith'',
     CONTAINER_TIMEOUT = 100000, IDLE_TIMEOUT = 60000, CONTAINER_MAX_OUTPUT_SIZE = 100 \<rparr>"

definition payload_one :: string where
  \<open>payload_one = ''{"result":"one"}''\<close>

definition payload_two :: string where
  \<open>payload_two = ''{"result":"two","newSessionId":"s2"}''\<close>

definition output_one :: ContainerOutput where
  "output_one = \<lparr> status = Success, result = Some ''one'', newSessionId = None,
     error = None, isPartial = None, streamType = None \<rparr>"

definition output_two :: ContainerOutput where
  "output_two = \<lparr> status = Success, result = Some ''two'', newSessionId = Some ''s2'',
     error = None, isPartial = None, streamType = None \<rparr>"

definition sample_parse :: "string \<Rightarrow> string + ContainerOutput" where
  "sample_parse j =
     (if j = payload_one then Inr output_one
      else if j = payload_two then Inr output_two
      else Inl ''Unexpected end of JSON input'')"

definition frame :: "string \<Rightarrow> string" where
  "frame j = OUTPUT_START_MARKER @ [CHR 0x0A] @ j @ [CHR 0x0A] @ OUTPUT_END_MARKER @ [CHR 0x0A]"

definition sample_group :: RegisteredGroup where
  "sample_group = \<lparr> group_name = ''Family'', group_folder = ''family'',
     containerConfig_timeout = None \<rparr>"

definition streaming :: invocation where
  "streaming = \<lparr> i_cfg = sample_cfg, i_group = sample_group, i_onOutput = True,
     i_parse = sample_parse, i_secrets = [(''ANTHROPIC_API_KEY'', ''sk-secret'')],
     i_verbose = False \<rparr>"

definition legacy :: invocation where
  "legacy = streaming\<lparr>i_onOutput := False\<rparr>"

text \<open>An invocation in legacy mode with room for 1000 characters of output per stream,
  and an invocation for a group whose configured timeout is 3000000 seconds.\<close>

definition wide :: invocation where
  "wide = legacy\<lparr>i_cfg := sample_cfg\<lparr>CONTAINER_MAX_OUTPUT_SIZE := 1000\<rparr>\<rparr>"

definition patient :: invocation where
  "patient = streaming\<lparr>i_group := sample_group\<lparr>containerConfig_timeout := Some 3000000000\<rparr>\<rparr>"

definition sample_input :: ContainerInput where
  "sample_input = \<lparr> prompt = ''hello'', sessionId = None, groupFolder = ''family'',
     chatJid = ''120363@g.us'', isMain = False, isScheduledTask = None, secrets = None \<rparr>"

text \<open>What the theorems below look at in a state: the timer, the result, and the captured
  output.\<close>

definition view_timer :: "agent_run \<Rightarrow> nat \<times> nat option \<times> bool \<times> bool" where
  "view_timer s = (now s, timeout s, timedOut s, Kill SIGTERM \<in> set (effects s))"

definition view_result ::
  "agent_run \<Rightarrow> ContainerOutput option \<times> task list \<times> bool \<times> effect list" where
  "view_result s = (resolved s, outputChain s, chain_rejected s, deliveries (effects s))"

definition view_capture :: "agent_run \<Rightarrow> string \<times> bool \<times> ContainerOutput list" where
  "view_capture s = (stdout s, stdoutTruncated s, framed s)"

definition view_flags :: "agent_run \<Rightarrow> bool \<times> bool \<times> ContainerOutput option" where
  "view_flags s = (stdoutTruncated s, stderrTruncated s, resolved s)"

text \<open>A registry with one WhatsApp group and one Telegram chat, and a message for each
  channel.\<close>

definition sample_groups :: "string \<rightharpoonup> RegisteredGroup" where
  "sample_groups = [''120363@g.us'' \<mapsto> sample_group, ''tg:-1001'' \<mapsto> sample_group]"

definition sample_wa_message :: WAMessage where
  "sample_wa_message = \<lparr> has_message = True, remoteJid = Some ''120363@g.us'',
     participant = Some ''4915@s.whatsapp.net'', key_id = Some ''3EB0'', fromMe = None,
     pushName = Some ''Ada'', messageTimestamp = 1700000000, conversation = Some ''hello'',
     extendedText = None, imageMessage = None, videoMessage = None, audio_ptt = False \<rparr>"

definition sample_tg_ctx :: tg_ctx where
  "sample_tg_ctx = \<lparr> route = Msg_photo, chat_id = - 1001, chat_type = ''group'',
     chat_title = Some ''Family'', from_id = Some 77, from_first_name = Some ''Ada'',
     from_username = None, msg_text = [], msg_date = 1700000000, message_id = 12,
     entities = [], caption = None, me_username = Some ''smith_bot'' \<rparr>"

text \<open>A voice message for each channel, and the registry with no chat.\<close>

definition sample_wa_voice :: WAMessage where
  "sample_wa_voice = sample_wa_message\<lparr>conversation := None, audio_ptt := True\<rparr>"

definition sample_tg_voice :: tg_ctx where
  "sample_tg_voice = sample_tg_ctx\<lparr>route := Msg_voice\<rparr>"

definition no_groups :: "string \<rightharpoonup> RegisteredGroup" where
  "no_groups = Map.empty"

definition no_trigger :: "string \<Rightarrow> bool" where
  "no_trigger t = False"

section \<open>Properties of the WhatsApp channel\<close>

lemma wa_inv_init: "wa_inv wa_init"
  by (simp add: wa_inv_def wa_init_def)

lemma wa_inv_push: "wa_inv s \<Longrightarrow> wa_inv (push item s)"
  by (simp add: wa_inv_def push_def)

lemma wa_inv_sendMessage: "wa_inv s \<Longrightarrow> wa_inv (sendMessage cfg jid text s)"
  by (simp add: sendMessage_def Let_def wa_inv_push) (simp add: wa_inv_def)

lemma wa_inv_send_resume: "wa_inv s \<Longrightarrow> wa_inv (send_resume k r s)"
proof -
  assume inv: "wa_inv s"
  have "wa_inv (s\<lparr>sending := xs\<rparr>)" for xs
    using inv by (simp add: wa_inv_def)
  then have "wa_inv (push item (s\<lparr>sending := xs\<rparr>))" for item xs
    by (rule wa_inv_push)
  moreover have "wa_inv (s\<lparr>sending := xs, sock_sent := ys\<rparr>)" for xs ys
    using inv by (simp add: wa_inv_def)
  ultimately show ?thesis
    using inv by (cases r) (simp_all add: send_resume_def Let_def)
qed

lemma wa_inv_flush_loop:
  "attempts s @ outgoingQueue s = pushed s \<Longrightarrow> drains s = [] \<Longrightarrow> flushing s \<Longrightarrow> wa_inv (flush_loop s)"
  by (cases "outgoingQueue s") (auto simp: flush_loop_def wa_inv_def)

lemma wa_inv_flushOutgoingQueue: "wa_inv s \<Longrightarrow> wa_inv (flushOutgoingQueue s)"
proof -
  assume inv: "wa_inv s"
  show ?thesis
  proof (cases "flushing s \<or> outgoingQueue s = []")
    case True
    with inv show ?thesis by (simp add: flushOutgoingQueue_def)
  next
    case False
    with inv have d: "drains s = []" by (auto simp: wa_inv_def)
    from inv have "attempts s @ outgoingQueue s = pushed s" by (simp add: wa_inv_def)
    with d have "wa_inv (flush_loop (s\<lparr>flushing := True\<rparr>))"
      by (intro wa_inv_flush_loop) simp_all
    with False show ?thesis by (simp add: flushOutgoingQueue_def)
  qed
qed

lemma wa_inv_flush_resume: "wa_inv s \<Longrightarrow> wa_inv (flush_resume i r s)"
proof -
  assume inv: "wa_inv s"
  show ?thesis
  proof (cases "i < length (drains s)")
    case False
    with inv show ?thesis by (simp add: flush_resume_def)
  next
    case True
    with inv have i0: "i = 0" and len: "length (drains s) = 1" by (auto simp: wa_inv_def)
    then have rest: "take i (drains s) @ drop (Suc i) (drains s) = []" by simp
    from inv True have fl: "flushing s" by (auto simp: wa_inv_def)
    from inv have q: "attempts s @ outgoingQueue s = pushed s" by (simp add: wa_inv_def)
    show ?thesis
    proof (cases r)
      case Done
      have "wa_inv (flush_loop (s\<lparr>drains := [], sock_sent := sock_sent s @ [drains s ! i]\<rparr>))"
        using q fl by (intro wa_inv_flush_loop) simp_all
      with True Done show ?thesis unfolding flush_resume_def Let_def rest by simp
    next
      case Throws
      with True q show ?thesis unfolding flush_resume_def Let_def rest by (simp add: wa_inv_def)
    qed
  qed
qed

lemma wa_inv_on_open: "wa_inv s \<Longrightarrow> wa_inv (on_open user s)"
proof -
  assume inv: "wa_inv s"
  have a: "\<And>f. wa_inv (s\<lparr>connected := True, lidToPhoneMap := f\<rparr>)"
    using inv by (simp add: wa_inv_def)
  have b: "wa_inv (s\<lparr>connected := True\<rparr>)"
    using inv by (simp add: wa_inv_def)
  show ?thesis
    unfolding on_open_def Let_def
    by (auto split: option.splits prod.splits intro!: wa_inv_flushOutgoingQueue a b)
qed

lemma wa_inv_step: "wa_inv s \<Longrightarrow> wa_inv (wa_step cfg e s)"
proof (cases e)
  case Ev_close
  assume "wa_inv s"
  with Ev_close show ?thesis by (simp add: wa_inv_def)
qed (simp_all add: wa_inv_sendMessage wa_inv_send_resume wa_inv_on_open wa_inv_flushOutgoingQueue
    wa_inv_flush_resume)

lemma wa_inv_run: "wa_inv s \<Longrightarrow> wa_inv (wa_run cfg es s)"
  by (induction es arbitrary: s) (simp_all add: wa_inv_step)

lemma flush_resume_done:
  "drains u = [x] \<Longrightarrow>
   flush_resume 0 Done u = flush_loop (u\<lparr>drains := [], sock_sent := sock_sent u @ [x]\<rparr>)"
  by (simp add: flush_resume_def Let_def)

text \<open>A running drain whose sends all succeed sends the item it awaits and then the
  queue, in order, and ends with the queue empty.\<close>

lemma drain_all:
  assumes "drains u = [x]" and "flushing u" and "outgoingQueue u = q"
  shows "sock_sent (wa_run cfg (replicate (Suc (length q)) (Ev_settle 0 Done)) u) = sock_sent u @ x # q
       \<and> outgoingQueue (wa_run cfg (replicate (Suc (length q)) (Ev_settle 0 Done)) u) = []
       \<and> drains (wa_run cfg (replicate (Suc (length q)) (Ev_settle 0 Done)) u) = []
       \<and> \<not> flushing (wa_run cfg (replicate (Suc (length q)) (Ev_settle 0 Done)) u)"
  using assms
proof (induction q arbitrary: u x)
  case Nil
  then show ?case by (simp add: flush_resume_done flush_loop_def)
next
  case (Cons y ys)
  define u1 where "u1 = flush_resume 0 Done u"
  have u1: "u1 = u\<lparr>drains := [], sock_sent := sock_sent u @ [x], outgoingQueue := ys,
                  attempts := attempts u @ [y], drains := [y]\<rparr>"
    using Cons.prems by (simp add: u1_def flush_resume_done flush_loop_def)
  have "sock_sent (wa_run cfg (replicate (Suc (length ys)) (Ev_settle 0 Done)) u1) = sock_sent u1 @ y # ys
       \<and> outgoingQueue (wa_run cfg (replicate (Suc (length ys)) (Ev_settle 0 Done)) u1) = []
       \<and> drains (wa_run cfg (replicate (Suc (length ys)) (Ev_settle 0 Done)) u1) = []
       \<and> \<not> flushing (wa_run cfg (replicate (Suc (length ys)) (Ev_settle 0 Done)) u1)"
    using Cons.prems by (intro Cons.IH) (simp_all add: u1)
  moreover have "sock_sent u1 = sock_sent u @ [x]" by (simp add: u1)
  ultimately show ?case by (simp add: u1_def)
qed

lemma on_open_flush:
  "\<exists>m. on_open user s = flushOutgoingQueue (s\<lparr>connected := True, lidToPhoneMap := m\<rparr>)"
proof -
  have a: "\<exists>m. flushOutgoingQueue (s\<lparr>connected := True\<rparr>)
      = flushOutgoingQueue (s\<lparr>connected := True, lidToPhoneMap := m\<rparr>)"
    by (rule exI [of _ "lidToPhoneMap s"]) simp
  have b: "\<exists>m. flushOutgoingQueue (s\<lparr>connected := True, lidToPhoneMap := f\<rparr>)
      = flushOutgoingQueue (s\<lparr>connected := True, lidToPhoneMap := m\<rparr>)" for f
    by (rule exI [of _ f]) simp
  show ?thesis
    unfolding on_open_def Let_def
    by (simp add: a b split: option.splits prod.splits)
qed

text \<open>The drain that an opening connection starts on an idle channel, when all its sends
  succeed.\<close>

lemma reconnect_drain:
  assumes "drains s = []" and "\<not> flushing s"
  shows "sock_sent (wa_run cfg (Ev_open user # replicate (length (outgoingQueue s)) (Ev_settle 0 Done)) s)
           = sock_sent s @ outgoingQueue s
       \<and> outgoingQueue (wa_run cfg (Ev_open user # replicate (length (outgoingQueue s)) (Ev_settle 0 Done)) s)
           = []
       \<and> drains (wa_run cfg (Ev_open user # replicate (length (outgoingQueue s)) (Ev_settle 0 Done)) s)
           = []
       \<and> \<not> flushing (wa_run cfg (Ev_open user # replicate (length (outgoingQueue s)) (Ev_settle 0 Done)) s)"
proof -
  obtain m where op: "on_open user s = flushOutgoingQueue (s\<lparr>connected := True, lidToPhoneMap := m\<rparr>)"
    using on_open_flush by blast
  show ?thesis
  proof (cases "outgoingQueue s")
    case Nil
    with assms show ?thesis by (simp add: op flushOutgoingQueue_def)
  next
    case (Cons y ys)
    define u where "u = on_open user s"
    have u: "u = s\<lparr>connected := True, lidToPhoneMap := m, flushing := True, outgoingQueue := ys,
                  attempts := attempts s @ [y], drains := [y]\<rparr>"
      using assms Cons by (simp add: u_def op flushOutgoingQueue_def flush_loop_def)
    have "sock_sent (wa_run cfg (replicate (Suc (length ys)) (Ev_settle 0 Done)) u) = sock_sent u @ y # ys
       \<and> outgoingQueue (wa_run cfg (replicate (Suc (length ys)) (Ev_settle 0 Done)) u) = []
       \<and> drains (wa_run cfg (replicate (Suc (length ys)) (Ev_settle 0 Done)) u) = []
       \<and> \<not> flushing (wa_run cfg (replicate (Suc (length ys)) (Ev_settle 0 Done)) u)"
      by (rule drain_all) (simp_all add: u)
    moreover have "sock_sent u = sock_sent s" by (simp add: u)
    ultimately show ?thesis
      using Cons by (simp add: u_def)
  qed
qed

text \<open>
  Claim C5. Whatever calls and events the channel goes through, starting from a fresh
  channel: the items the drain has handed to the transport, followed by the items still
  queued, are exactly the items pushed, in the order they were pushed (so the drain takes
  the items in FIFO order and each pushed item at most once); at most one drain is
  running; while a drain is running, a further call of \<open>flushOutgoingQueue\<close> changes
  nothing and sends nothing; and a \<open>sendMessage\<close> on a disconnected channel appends its
  item to the queue whether or not a drain is running. When no drain is running and the
  connection opens, the drain it starts sends, as its transport calls succeed one after
  the other, exactly the queued items in the order of the queue, and ends with the queue
  empty and the \<open>flushing\<close> flag cleared; likewise a running drain sends the item it is
  awaiting and then the queued items, in order.
\<close>

theorem drain_fifo_exclusive:
  "let s = wa_run cfg es wa_init in
     attempts s @ outgoingQueue s = pushed s
   \<and> length (drains s) \<le> 1
   \<and> (drains s \<noteq> [] \<longrightarrow> flushOutgoingQueue s = s)
   \<and> (\<not> connected s \<longrightarrow>
        outgoingQueue (sendMessage cfg jid text s) = outgoingQueue s @ [(jid, prefixed cfg jid text)])
   \<and> (drains s = [] \<longrightarrow>
        sock_sent (wa_run cfg (Ev_open user # replicate (length (outgoingQueue s)) (Ev_settle 0 Done)) s)
          = sock_sent s @ outgoingQueue s
      \<and> outgoingQueue (wa_run cfg (Ev_open user # replicate (length (outgoingQueue s)) (Ev_settle 0 Done)) s)
          = []
      \<and> drains (wa_run cfg (Ev_open user # replicate (length (outgoingQueue s)) (Ev_settle 0 Done)) s)
          = []
      \<and> \<not> flushing (wa_run cfg (Ev_open user # replicate (length (outgoingQueue s)) (Ev_settle 0 Done)) s))
   \<and> (drains s = [x] \<longrightarrow>
        sock_sent (wa_run cfg (replicate (Suc (length (outgoingQueue s))) (Ev_settle 0 Done)) s)
          = sock_sent s @ x # outgoingQueue s
      \<and> outgoingQueue (wa_run cfg (replicate (Suc (length (outgoingQueue s))) (Ev_settle 0 Done)) s) = []
      \<and> drains (wa_run cfg (replicate (Suc (length (outgoingQueue s))) (Ev_settle 0 Done)) s) = []
      \<and> \<not> flushing (wa_run cfg (replicate (Suc (length (outgoingQueue s))) (Ev_settle 0 Done)) s))"
proof -
  define s where "s = wa_run cfg es wa_init"
  have inv: "wa_inv s"
    unfolding s_def by (rule wa_inv_run [OF wa_inv_init])
  have a: "attempts s @ outgoingQueue s = pushed s" and b: "length (drains s) \<le> 1"
    using inv by (simp_all add: wa_inv_def)
  have c: "drains s \<noteq> [] \<longrightarrow> flushOutgoingQueue s = s"
    using inv by (simp add: wa_inv_def flushOutgoingQueue_def)
  have d: "\<not> connected s \<longrightarrow>
        outgoingQueue (sendMessage cfg jid text s) = outgoingQueue s @ [(jid, prefixed cfg jid text)]"
    by (simp add: sendMessage_def push_def Let_def)
  have e: "drains s = [] \<longrightarrow>
        sock_sent (wa_run cfg (Ev_open user # replicate (length (outgoingQueue s)) (Ev_settle 0 Done)) s)
          = sock_sent s @ outgoingQueue s
      \<and> outgoingQueue (wa_run cfg (Ev_open user # replicate (length (outgoingQueue s)) (Ev_settle 0 Done)) s)
          = []
      \<and> drains (wa_run cfg (Ev_open user # replicate (length (outgoingQueue s)) (Ev_settle 0 Done)) s)
          = []
      \<and> \<not> flushing (wa_run cfg (Ev_open user # replicate (length (outgoingQueue s)) (Ev_settle 0 Done)) s)"
  proof
    assume idle: "drains s = []"
    with inv have "\<not> flushing s" by (simp add: wa_inv_def)
    with idle show "sock_sent (wa_run cfg (Ev_open user # replicate (length (outgoingQueue s)) (Ev_settle 0 Done)) s)
          = sock_sent s @ outgoingQueue s
      \<and> outgoingQueue (wa_run cfg (Ev_open user # replicate (length (outgoingQueue s)) (Ev_settle 0 Done)) s)
          = []
      \<and> drains (wa_run cfg (Ev_open user # replicate (length (outgoingQueue s)) (Ev_settle 0 Done)) s)
          = []
      \<and> \<not> flushing (wa_run cfg (Ev_open user # replicate (length (outgoingQueue s)) (Ev_settle 0 Done)) s)"
      by (rule reconnect_drain)
  qed
  have f: "drains s = [x] \<longrightarrow>
        sock_sent (wa_run cfg (replicate (Suc (length (outgoingQueue s))) (Ev_settle 0 Done)) s)
          = sock_sent s @ x # outgoingQueue s
      \<and> outgoingQueue (wa_run cfg (replicate (Suc (length (outgoingQueue s))) (Ev_settle 0 Done)) s) = []
      \<and> drains (wa_run cfg (replicate (Suc (length (outgoingQueue s))) (Ev_settle 0 Done)) s) = []
      \<and> \<not> flushing (wa_run cfg (replicate (Suc (length (outgoingQueue s))) (Ev_settle 0 Done)) s)"
  proof
    assume run: "drains s = [x]"
    with inv have "flushing s" by (simp add: wa_inv_def)
    with run show "sock_sent (wa_run cfg (replicate (Suc (length (outgoingQueue s))) (Ev_settle 0 Done)) s)
          = sock_sent s @ x # outgoingQueue s
      \<and> outgoingQueue (wa_run cfg (replicate (Suc (length (outgoingQueue s))) (Ev_settle 0 Done)) s) = []
      \<and> drains (wa_run cfg (replicate (Suc (length (outgoingQueue s))) (Ev_settle 0 Done)) s) = []
      \<and> \<not> flushing (wa_run cfg (replicate (Suc (length (outgoingQueue s))) (Ev_settle 0 Done)) s)"
      by (intro drain_all) simp_all
  qed
  from a b c d e f show ?thesis
    unfolding s_def [symmetric] Let_def by (intro conjI)
qed

theorem drain_fifo_exclusive_witness:
  "drains (wa_run sample_cfg [Ev_send ''a@g.us'' ''one'', Ev_send ''a@g.us'' ''two''] wa_init) = []
   \<and> outgoingQueue (wa_run sample_cfg [Ev_send ''a@g.us'' ''one'', Ev_send ''a@g.us'' ''two''] wa_init)
     = [(''a@g.us'', ''Smith: one''), (''a@g.us'', ''Smith: two'')]
   \<and> sock_sent (wa_run sample_cfg [Ev_open None, Ev_settle 0 Done, Ev_settle 0 Done]
        (wa_run sample_cfg [Ev_send ''a@g.us'' ''one'', Ev_send ''a@g.us'' ''two''] wa_init))
     = [(''a@g.us'', ''Smith: one''), (''a@g.us'', ''Smith: two'')]
   \<and> outgoingQueue (wa_run sample_cfg [Ev_open None, Ev_settle 0 Done, Ev_settle 0 Done]
        (wa_run sample_cfg [Ev_send ''a@g.us'' ''one'', Ev_send ''a@g.us'' ''two''] wa_init)) = []
   \<and> drains (wa_run sample_cfg [Ev_send ''a@g.us'' ''one'', Ev_send ''a@g.us'' ''two'', Ev_open None,
      Ev_close] wa_init) = [(''a@g.us'', ''Smith: one'')]
   \<and> outgoingQueue (wa_run sample_cfg [Ev_send ''a@g.us'' ''one'', Ev_send ''a@g.us'' ''two'',
      Ev_open None, Ev_close] wa_init) = [(''a@g.us'', ''Smith: two'')]
   \<and> flushOutgoingQueue (wa_run sample_cfg [Ev_send ''a@g.us'' ''one'', Ev_send ''a@g.us'' ''two'',
      Ev_open None, Ev_close] wa_init)
     = wa_run sample_cfg [Ev_send ''a@g.us'' ''one'', Ev_send ''a@g.us'' ''two'', Ev_open None,
      Ev_close] wa_init
   \<and> outgoingQueue (sendMessage sample_cfg ''b@g.us'' ''three''
        (wa_run sample_cfg [Ev_send ''a@g.us'' ''one'', Ev_send ''a@g.us'' ''two'', Ev_open None,
           Ev_close] wa_init))
     = [(''a@g.us'', ''Smith: two''), (''b@g.us'', ''Smith: three'')]
   \<and> sock_sent (wa_run sample_cfg [Ev_settle 0 Done, Ev_settle 0 Done]
        (wa_run sample_cfg [Ev_send ''a@g.us'' ''one'', Ev_send ''a@g.us'' ''two'', Ev_open None,
           Ev_close] wa_init))
     = [(''a@g.us'', ''Smith: one''), (''a@g.us'', ''Smith: two'')]"
proof -
  define q where "q = wa_run sample_cfg [Ev_send ''a@g.us'' ''one'', Ev_send ''a@g.us'' ''two''] wa_init"
  define s where "s = wa_run sample_cfg [Ev_send ''a@g.us'' ''one'', Ev_send ''a@g.us'' ''two'',
      Ev_open None, Ev_close] wa_init"
  have eq: "drains q = [] \<and> sock_sent q = []
      \<and> outgoingQueue q = [(''a@g.us'', ''Smith: one''), (''a@g.us'', ''Smith: two'')]"
    unfolding q_def
    by (simp add: wa_init_def sendMessage_def push_def prefixed_def endsWith_def sample_cfg_def Let_def)
  have ev: "drains s = [(''a@g.us'', ''Smith: one'')] \<and> \<not> connected s \<and> sock_sent s = []
      \<and> outgoingQueue s = [(''a@g.us'', ''Smith: two'')]"
    unfolding s_def
    by (simp add: wa_init_def sendMessage_def push_def on_open_def flushOutgoingQueue_def
        flush_loop_def prefixed_def endsWith_def sample_cfg_def Let_def)
  have tq: "sock_sent (wa_run sample_cfg
          (Ev_open None # replicate (length (outgoingQueue q)) (Ev_settle 0 Done)) q)
        = sock_sent q @ outgoingQueue q
      \<and> outgoingQueue (wa_run sample_cfg
          (Ev_open None # replicate (length (outgoingQueue q)) (Ev_settle 0 Done)) q) = []"
    using drain_fifo_exclusive [of sample_cfg "[Ev_send ''a@g.us'' ''one'', Ev_send ''a@g.us'' ''two'']"
      "''b@g.us''" "''three''" None "(''a@g.us'', ''Smith: one'')"] eq
    unfolding q_def [symmetric] Let_def by blast
  have th: "(drains s \<noteq> [] \<longrightarrow> flushOutgoingQueue s = s)
      \<and> (\<not> connected s \<longrightarrow> outgoingQueue (sendMessage sample_cfg ''b@g.us'' ''three'' s)
            = outgoingQueue s @ [(''b@g.us'', prefixed sample_cfg ''b@g.us'' ''three'')])
      \<and> (drains s = [(''a@g.us'', ''Smith: one'')] \<longrightarrow>
          sock_sent (wa_run sample_cfg (replicate (Suc (length (outgoingQueue s))) (Ev_settle 0 Done)) s)
            = sock_sent s @ (''a@g.us'', ''Smith: one'') # outgoingQueue s)"
    using drain_fifo_exclusive [of sample_cfg "[Ev_send ''a@g.us'' ''one'', Ev_send ''a@g.us'' ''two'',
      Ev_open None, Ev_close]" "''b@g.us''" "''three''" None "(''a@g.us'', ''Smith: one'')"]
    unfolding s_def [symmetric] Let_def by blast
  have p: "prefixed sample_cfg ''b@g.us'' ''three'' = ''Smith: three''"
    by (simp add: prefixed_def endsWith_def sample_cfg_def)
  have r2: "replicate 2 (Ev_settle 0 Done) = [Ev_settle 0 Done, Ev_settle 0 Done]"
    by (simp add: numeral_2_eq_2)
  from eq tq have one: "sock_sent (wa_run sample_cfg [Ev_open None, Ev_settle 0 Done, Ev_settle 0 Done] q)
        = [(''a@g.us'', ''Smith: one''), (''a@g.us'', ''Smith: two'')]
      \<and> outgoingQueue (wa_run sample_cfg [Ev_open None, Ev_settle 0 Done, Ev_settle 0 Done] q) = []"
    by (simp add: r2)
  from ev th have two: "flushOutgoingQueue s = s
      \<and> outgoingQueue (sendMessage sample_cfg ''b@g.us'' ''three'' s)
          = [(''a@g.us'', ''Smith: two''), (''b@g.us'', ''Smith: three'')]
      \<and> sock_sent (wa_run sample_cfg [Ev_settle 0 Done, Ev_settle 0 Done] s)
          = [(''a@g.us'', ''Smith: one''), (''a@g.us'', ''Smith: two'')]"
    by (simp add: p r2)
  from eq ev one two show ?thesis
    unfolding q_def [symmetric] s_def [symmetric] by simp
qed

text \<open>
  Claim C6. The first half of the claim holds: \<open>sendMessage\<close> pushes the item when the
  channel is disconnected or the transport call throws, and returns normally
  (\<open>sendMessage_failure_enqueues\<close>). The second half fails in the drain: one message is
  queued while disconnected, the connection opens and the drain's transport call throws.
  The item was shifted off the queue before the call, and nothing puts it back: it is
  neither queued nor sent, and a later reconnect finds nothing to retry.
\<close>

theorem drain_failure_drops_item:
  "pushed (wa_run sample_cfg [Ev_send ''a@g.us'' ''one'', Ev_open None, Ev_settle 0 Throws] wa_init)
     = [(''a@g.us'', ''Smith: one'')]
   \<and> outgoingQueue (wa_run sample_cfg [Ev_send ''a@g.us'' ''one'', Ev_open None, Ev_settle 0 Throws]
        wa_init) = []
   \<and> sock_sent (wa_run sample_cfg [Ev_send ''a@g.us'' ''one'', Ev_open None, Ev_settle 0 Throws]
        wa_init) = []
   \<and> sock_sent (wa_run sample_cfg [Ev_send ''a@g.us'' ''one'', Ev_open None, Ev_settle 0 Throws,
        Ev_close, Ev_open None] wa_init) = []
   \<and> drains (wa_run sample_cfg [Ev_send ''a@g.us'' ''one'', Ev_open None, Ev_settle 0 Throws,
        Ev_close, Ev_open None] wa_init) = []"
  by (simp add: wa_init_def sendMessage_def push_def on_open_def flushOutgoingQueue_def
      flush_loop_def flush_resume_def prefixed_def endsWith_def sample_cfg_def Let_def)






lemma sendMessage_failure_enqueues:
  "(\<not> connected s \<longrightarrow>
      outgoingQueue (sendMessage cfg jid text s) = outgoingQueue s @ [(jid, prefixed cfg jid text)]
    \<and> sock_sent (sendMessage cfg jid text s) = sock_sent s)
   \<and> (connected s \<longrightarrow>
      sending (sendMessage cfg jid text s) = sending s @ [(jid, prefixed cfg jid text)])
   \<and> (k < length (sending s) \<longrightarrow>
      outgoingQueue (send_resume k Throws s) = outgoingQueue s @ [sending s ! k]
    \<and> sock_sent (send_resume k Throws s) = sock_sent s)"
  by (simp add: sendMessage_def send_resume_def push_def Let_def)

section \<open>Properties of the agent runner\<close>

subsection \<open>Rules for the scanning loop and the chain, and evaluation\<close>

declare scan_loop.simps [simp del]
declare scan.simps [simp del]

lemma scan_loop_inv:
  assumes "\<And>j u. P u \<Longrightarrow> P (emit i j u)"
      and "\<And>b u. P u \<Longrightarrow> P (u\<lparr>parseBuffer := b\<rparr>)"
      and "P s"
  shows "P (scan_loop i s)"
  using assms
proof (induction i s rule: scan_loop.induct)
  case (1 i s)
  show ?case
  proof (cases "indexOf OUTPUT_START_MARKER (parseBuffer s)")
    case None
    with "1.prems" show ?thesis by (subst scan_loop.simps) simp
  next
    case (Some a)
    show ?thesis
    proof (cases "indexOf_from OUTPUT_END_MARKER a (parseBuffer s)")
      case None
      with Some "1.prems" show ?thesis by (subst scan_loop.simps) simp
    next
      case b: (Some b)
      have "P (scan_loop i (emit i (trim (slice (a + length OUTPUT_START_MARKER) b (parseBuffer s)))
               (s\<lparr>parseBuffer := slice_from (b + length OUTPUT_END_MARKER) (parseBuffer s)\<rparr>)))"
        using "1.prems" by (intro "1.IH" [OF Some b refl]) blast+
      with Some b show ?thesis by (subst scan_loop.simps) (simp add: Let_def)
    qed
  qed
qed

lemma run_chain_inv:
  assumes "\<And>r u. P u \<Longrightarrow> P (resolve r u)"
      and "\<And>ts u. P u \<Longrightarrow> P (u\<lparr>outputChain := ts\<rparr>)"
      and "\<And>e ts u. P u \<Longrightarrow> P (u\<lparr>outputChain := Deliver e # ts, effects := effects u @ [Deliver_begin e]\<rparr>)"
      and "P s"
  shows "P (run_chain ts s)"
  using assms(4)
  by (induction ts s rule: run_chain.induct) (simp_all add: assms(1-3))

lemma run_append: "run i (xs @ ys) s = run i ys (run i xs s)"
  by (induction xs arbitrary: s) simp_all

lemma run_snoc: "run i (xs @ [te]) s = step i te (run i xs s)"
  by (simp add: run_append)

lemmas run_eval =
  indexOf_def indexOf_from_def OUTPUT_START_MARKER_def OUTPUT_END_MARKER_def slice_def
  slice_from_def slice_last_def trim_def is_space_def last_line_def
  spawn_def fresh_def set_secrets_def write_stdin_def delete_secrets_def resetTimeout_def
  timer_delay_def timeoutMs_def configTimeout_def step_def advance_def killOnTimeout_def on_stdout_def
  on_stderr_def on_close_def on_error_def emit_def chain_then_def callback_settled_def
  resolve_def soft_success_def error_output_def legacy_jsonLine_def session_or_new_def
  show_code_def digit_def Let_def scan_loop.simps
  sample_cfg_def payload_one_def payload_two_def output_one_def output_two_def sample_parse_def
  frame_def sample_group_def streaming_def legacy_def wide_def patient_def sample_input_def
  view_timer_def view_result_def view_capture_def view_flags_def


subsection \<open>The secrets\<close>

lemma disk_inputs_append: "disk_inputs (fs @ gs) = disk_inputs fs @ disk_inputs gs"
  by (induction fs rule: disk_inputs.induct) simp_all

lemma stdin_writes_append: "stdin_writes (fs @ gs) = stdin_writes fs @ stdin_writes gs"
  by (induction fs rule: stdin_writes.induct) simp_all

lemma sealed_resolve: "sealed inp i s \<Longrightarrow> sealed inp i (resolve r s)"
  by (simp add: sealed_def resolve_def disk_inputs_append stdin_writes_append split: option.splits)

lemma sealed_run_chain: "sealed inp i s \<Longrightarrow> sealed inp i (run_chain ts s)"
  by (rule run_chain_inv [where P = "sealed inp i"])
     (simp_all add: sealed_resolve, simp_all add: sealed_def disk_inputs_append stdin_writes_append)

lemma sealed_chain_then: "sealed inp i s \<Longrightarrow> sealed inp i (chain_then t s)"
  by (simp add: chain_then_def sealed_run_chain) (simp add: sealed_def)

lemma sealed_emit: "sealed inp i s \<Longrightarrow> sealed inp i (emit i j s)"
  unfolding emit_def Let_def
  by (auto split: sum.splits option.splits intro!: sealed_chain_then simp: resetTimeout_def)
     (simp_all add: sealed_def)

lemma sealed_on_stdout: "sealed inp i s \<Longrightarrow> sealed inp i (on_stdout i chunk s)"
proof -
  assume s: "sealed inp i s"
  have "sealed inp i (scan_loop i u)" if "sealed inp i u" for u
    using that by (intro scan_loop_inv [where P = "sealed inp i"]) (simp_all add: sealed_emit, simp add: sealed_def)
  moreover have "sealed inp i (s\<lparr>stdout := a, stdoutTruncated := b, parseBuffer := c\<rparr>)"
    "sealed inp i (s\<lparr>stdout := a, parseBuffer := c\<rparr>)" "sealed inp i (s\<lparr>parseBuffer := c\<rparr>)"
    "sealed inp i (s\<lparr>stdout := a, stdoutTruncated := b\<rparr>)" "sealed inp i (s\<lparr>stdout := a\<rparr>)" for a b c
    using s by (simp_all add: sealed_def)
  ultimately show ?thesis
    using s by (simp add: on_stdout_def Let_def)
qed

lemma sealed_on_close: "sealed inp i s \<Longrightarrow> sealed inp i (on_close i code s)"
proof -
  assume s: "sealed inp i s"
  have a: "sealed inp i (s\<lparr>timeout := None, effects := effects s @ [File_write (Timeout_log c0 h)]\<rparr>)" for h c0
    using s by (simp add: sealed_def disk_inputs_append stdin_writes_append)
  have b: "sealed inp i (s\<lparr>timeout := None, effects := effects s @
             [File_write (Run_log c0 x y (Full (input s) e out))]\<rparr>)" for x y e out c0
    using s by (simp add: sealed_def disk_inputs_append stdin_writes_append)
  have c: "sealed inp i (s\<lparr>timeout := None, effects := effects s @
             [File_write (Run_log c0 x y (Summary n sid))]\<rparr>)" for x y n sid c0
    using s by (simp add: sealed_def disk_inputs_append stdin_writes_append)
  show ?thesis
  proof (cases "timedOut s")
    case True
    then show ?thesis
      by (simp add: on_close_def Let_def a sealed_chain_then sealed_resolve)
  next
    case False
    then show ?thesis
      by (simp add: on_close_def Let_def b c sealed_chain_then sealed_resolve split: sum.splits)
  qed
qed

lemma sealed_step: "sealed inp i s \<Longrightarrow> sealed inp i (step i te s)"
proof -
  assume s: "sealed inp i s"
  have adv: "sealed inp i (advance dt s)" for dt
    using s by (simp add: advance_def Let_def killOnTimeout_def sealed_def disk_inputs_append
        stdin_writes_append split: option.splits)
  have h: "sealed inp i (handle i e u)" if u: "sealed inp i u" for e u
  proof (cases e)
    case (Stdout x)
    with u show ?thesis by (simp add: sealed_on_stdout)
  next
    case (Stderr x)
    with u show ?thesis by (simp add: on_stderr_def Let_def sealed_def)
  next
    case (Settled r)
    have "sealed inp i (run_chain ts (u\<lparr>effects := effects u @ [Deliver_end e' Done]\<rparr>))" for ts e'
      using u by (intro sealed_run_chain) (simp add: sealed_def disk_inputs_append stdin_writes_append)
    with u Settled show ?thesis
      by (auto simp: callback_settled_def split: list.splits task.splits io.splits)
         (simp add: sealed_def disk_inputs_append stdin_writes_append)
  next
    case (Closed code)
    with u show ?thesis by (simp add: sealed_on_close)
  next
    case (Failed msg)
    have "sealed inp i (u\<lparr>timeout := None\<rparr>)" using u by (simp add: sealed_def)
    with Failed show ?thesis by (simp add: on_error_def sealed_resolve)
  next
    case Tick
    with u show ?thesis by simp
  qed
  show ?thesis by (simp add: step_def h adv)
qed

lemma sealed_run: "sealed inp i s \<Longrightarrow> sealed inp i (run i tes s)"
  by (induction tes arbitrary: s) (simp_all add: sealed_step)

lemma sealed_spawn: "sealed inp i (spawn i inp)"
  by (simp add: sealed_def spawn_def resetTimeout_def delete_secrets_def write_stdin_def
      set_secrets_def fresh_def)

text \<open>
  Claim C9. The spawn writes the input with the secrets to the worker's stdin and does
  nothing else to the outside; when it is over the input object holds no secrets. After
  any sequence of events the input object still holds none, stdin has received the
  secrets exactly once, and no input that a log file serialised holds secrets.
\<close>

theorem secrets_only_on_stdin:
  "effects (spawn i inp) = [Stdin_write (inp\<lparr>secrets := Some (i_secrets i)\<rparr>), Stdin_end]
   \<and> secrets (input (spawn i inp)) = None
   \<and> secrets (input (run i tes (spawn i inp))) = None
   \<and> stdin_writes (effects (run i tes (spawn i inp))) = [inp\<lparr>secrets := Some (i_secrets i)\<rparr>]
   \<and> (\<forall>x \<in> set (disk_inputs (effects (run i tes (spawn i inp)))). secrets x = None)"
proof -
  have "sealed inp i (run i tes (spawn i inp))"
    by (rule sealed_run [OF sealed_spawn])
  then show ?thesis
    by (simp add: sealed_def list_all_iff)
       (simp add: spawn_def resetTimeout_def delete_secrets_def write_stdin_def set_secrets_def fresh_def)
qed

theorem secrets_only_on_stdin_witness:
  "disk_inputs (effects (run streaming [(5, Closed (Some 1))] (spawn streaming sample_input)))
     = [sample_input]
   \<and> secrets sample_input = None"
proof -
  define s where "s = run streaming [(5, Closed (Some 1))] (spawn streaming sample_input)"
  have ev: "disk_inputs (effects s) = [sample_input]"
    unfolding s_def by (simp add: run_eval)
  have "\<forall>x \<in> set (disk_inputs (effects s)). secrets x = None"
    using secrets_only_on_stdin [of streaming sample_input "[(5, Closed (Some 1))]"]
    unfolding s_def [symmetric] by blast
  with ev show ?thesis
    unfolding s_def [symmetric] by simp
qed


subsection \<open>The timer\<close>

lemma set_deliveries_append: "deliveries (fs @ gs) = deliveries fs @ deliveries gs"
  by (induction fs rule: deliveries.induct) simp_all

lemma kill_logged_resolve: "kill_logged s \<Longrightarrow> kill_logged (resolve r s)"
  by (simp add: kill_logged_def resolve_def split: option.splits)

lemma kill_logged_run_chain: "kill_logged s \<Longrightarrow> kill_logged (run_chain ts s)"
  by (rule run_chain_inv [where P = kill_logged])
     (simp_all add: kill_logged_resolve, simp_all add: kill_logged_def)

lemma kill_logged_chain_then: "kill_logged s \<Longrightarrow> kill_logged (chain_then t s)"
  by (simp add: chain_then_def kill_logged_run_chain) (simp add: kill_logged_def)

lemma kill_logged_emit: "kill_logged s \<Longrightarrow> kill_logged (emit i j s)"
  unfolding emit_def Let_def
  by (auto split: sum.splits option.splits intro!: kill_logged_chain_then simp: resetTimeout_def)
     (simp_all add: kill_logged_def)

lemma kill_logged_on_stdout: "kill_logged s \<Longrightarrow> kill_logged (on_stdout i chunk s)"
proof -
  assume s: "kill_logged s"
  have "kill_logged (scan_loop i u)" if "kill_logged u" for u
    using that by (intro scan_loop_inv [where P = kill_logged])
      (simp_all add: kill_logged_emit, simp add: kill_logged_def)
  moreover have "kill_logged (s\<lparr>stdout := a, stdoutTruncated := b, parseBuffer := c\<rparr>)"
    "kill_logged (s\<lparr>stdout := a, parseBuffer := c\<rparr>)" "kill_logged (s\<lparr>parseBuffer := c\<rparr>)"
    "kill_logged (s\<lparr>stdout := a, stdoutTruncated := b\<rparr>)" "kill_logged (s\<lparr>stdout := a\<rparr>)" for a b c
    using s by (simp_all add: kill_logged_def)
  ultimately show ?thesis
    using s by (simp add: on_stdout_def Let_def)
qed

lemma kill_logged_on_close: "kill_logged s \<Longrightarrow> kill_logged (on_close i code s)"
proof -
  assume s: "kill_logged s"
  have a: "kill_logged (s\<lparr>timeout := None, effects := effects s @ [File_write l]\<rparr>)" for l
    using s by (simp add: kill_logged_def)
  show ?thesis
  proof (cases "timedOut s")
    case True
    then show ?thesis
      by (simp add: on_close_def Let_def a kill_logged_chain_then kill_logged_resolve)
  next
    case False
    then show ?thesis
      by (simp add: on_close_def Let_def a kill_logged_chain_then kill_logged_resolve split: sum.splits)
  qed
qed

lemma kill_logged_handle: "kill_logged u \<Longrightarrow> kill_logged (handle i e u)"
proof (cases e)
  case (Stdout x)
  assume "kill_logged u"
  with Stdout show ?thesis by (simp add: kill_logged_on_stdout)
next
  case (Stderr x)
  assume "kill_logged u"
  with Stderr show ?thesis by (simp add: on_stderr_def Let_def kill_logged_def)
next
  case (Settled r)
  assume u: "kill_logged u"
  have "kill_logged (run_chain ts (u\<lparr>effects := effects u @ [Deliver_end e' Done]\<rparr>))" for ts e'
    using u by (intro kill_logged_run_chain) (simp add: kill_logged_def)
  with u Settled show ?thesis
    by (auto simp: callback_settled_def split: list.splits task.splits io.splits)
       (simp_all add: kill_logged_def)
next
  case (Closed code)
  assume "kill_logged u"
  with Closed show ?thesis by (simp add: kill_logged_on_close)
next
  case (Failed msg)
  assume u: "kill_logged u"
  have "kill_logged (u\<lparr>timeout := None\<rparr>)" using u by (simp add: kill_logged_def)
  with Failed show ?thesis by (simp add: on_error_def kill_logged_resolve)
next
  case Tick
  assume "kill_logged u"
  with Tick show ?thesis by simp
qed

lemma kill_logged_advance: "kill_logged s \<Longrightarrow> kill_logged (advance dt s)"
  by (simp add: advance_def Let_def killOnTimeout_def kill_logged_def split: option.splits)

lemma kill_logged_run: "kill_logged s \<Longrightarrow> kill_logged (run i tes s)"
  by (induction tes arbitrary: s) (simp_all add: step_def kill_logged_handle kill_logged_advance)

lemma kill_logged_spawn: "kill_logged (spawn i inp)"
  by (simp add: kill_logged_def spawn_def resetTimeout_def delete_secrets_def write_stdin_def
      set_secrets_def fresh_def)

lemma timer_delay_pos: "0 < timer_delay ms"
  by (simp add: timer_delay_def)

lemma timing_resolve [simp]:
  "timedOut (resolve r s) = timedOut s" "timeout (resolve r s) = timeout s" "now (resolve r s) = now s"
  by (simp_all add: resolve_def split: option.splits)

lemma timing_run_chain [simp]:
  "timedOut (run_chain ts s) = timedOut s \<and> timeout (run_chain ts s) = timeout s
   \<and> now (run_chain ts s) = now s"
  by (induction ts s rule: run_chain.induct) simp_all

lemma timing_chain_then [simp]:
  "timedOut (chain_then t s) = timedOut s" "timeout (chain_then t s) = timeout s"
  "now (chain_then t s) = now s"
  by (simp_all add: chain_then_def)

lemma timing_emit:
  "timedOut (emit i j s) = timedOut s \<and> now (emit i j s) = now s
   \<and> timeout (emit i j s)
       = (case i_parse i j of Inr e \<Rightarrow> Some (now s + timer_delay (timeoutMs i)) | Inl m \<Rightarrow> timeout s)"
  by (simp add: emit_def Let_def resetTimeout_def split: sum.splits option.splits)

lemma armed_emit: "armed i s \<Longrightarrow> armed i (emit i j s)"
  using timer_delay_pos [of "timeoutMs i"] by (auto simp: armed_def timing_emit split: sum.splits)

lemma armed_on_stdout: "armed i s \<Longrightarrow> armed i (on_stdout i chunk s)"
proof -
  assume s: "armed i s"
  have "armed i (scan_loop i u)" if "armed i u" for u
    using that by (intro scan_loop_inv [where P = "armed i"])
      (simp_all add: armed_emit, simp add: armed_def)
  moreover have "armed i (s\<lparr>stdout := a, stdoutTruncated := b, parseBuffer := c\<rparr>)"
    "armed i (s\<lparr>stdout := a, parseBuffer := c\<rparr>)" "armed i (s\<lparr>parseBuffer := c\<rparr>)"
    "armed i (s\<lparr>stdout := a, stdoutTruncated := b\<rparr>)" "armed i (s\<lparr>stdout := a\<rparr>)" for a b c
    using s by (simp_all add: armed_def)
  ultimately show ?thesis
    using s by (simp add: on_stdout_def Let_def)
qed

lemma armed_advance: "armed i s \<Longrightarrow> armed i (advance dt s)"
proof (cases "timedOut s")
  case True
  then show ?thesis
    by (simp add: armed_def advance_def Let_def killOnTimeout_def split: option.splits)
next
  case False
  assume "armed i s"
  with False obtain d where d: "timeout s = Some d" "now s < d"
      "d \<le> now s + timer_delay (timeoutMs i)"
    by (auto simp: armed_def)
  show ?thesis
  proof (cases "d \<le> now s + dt")
    case True
    with d show ?thesis by (simp add: armed_def advance_def Let_def killOnTimeout_def)
  next
    case False
    with d show ?thesis by (simp add: armed_def advance_def Let_def)
  qed
qed

lemma timing_callback_settled:
  "timedOut (callback_settled r s) = timedOut s \<and> now (callback_settled r s) = now s
   \<and> timeout (callback_settled r s) = timeout s"
  by (simp add: callback_settled_def split: list.splits task.splits io.splits)

lemma armed_handle: "running e \<Longrightarrow> armed i s \<Longrightarrow> armed i (handle i e s)"
proof (cases e)
  case (Settled r)
  assume s: "armed i s"
  with Settled show ?thesis
    by (simp add: armed_def timing_callback_settled)
qed (simp_all add: armed_on_stdout, simp add: on_stderr_def Let_def armed_def)

lemma armed_run: "list_all running (map snd tes) \<Longrightarrow> armed i s \<Longrightarrow> armed i (run i tes s)"
  by (induction tes arbitrary: s) (simp_all add: step_def armed_handle armed_advance)

lemma armed_spawn: "armed i (spawn i inp)"
  using timer_delay_pos [of "timeoutMs i"]
  by (simp add: armed_def spawn_def resetTimeout_def delete_secrets_def write_stdin_def
      set_secrets_def fresh_def)

lemma framed_run_chain [simp]: "framed (run_chain ts s) = framed s"
  by (induction ts s rule: run_chain.induct) (simp_all add: resolve_def split: option.splits)

lemma on_stdout_timer:
  "timeout (on_stdout i chunk s)
     = (if framed (on_stdout i chunk s) = framed s then timeout s
        else Some (now s + timer_delay (timeoutMs i)))
   \<and> now (on_stdout i chunk s) = now s \<and> timedOut (on_stdout i chunk s) = timedOut s"
proof -
  define P where "P u \<longleftrightarrow> now u = now s \<and> timedOut u = timedOut s
     \<and> (\<exists>more. framed u = framed s @ more
           \<and> timeout u = (if more = [] then timeout s else Some (now s + timer_delay (timeoutMs i))))"
    for u :: agent_run
  have em: "P (emit i j u)" if "P u" for j u
  proof (cases "i_parse i j")
    case (Inl m)
    with that show ?thesis by (simp add: emit_def)
  next
    case (Inr e)
    from that obtain more where "now u = now s" "timedOut u = timedOut s" "framed u = framed s @ more"
      by (auto simp: P_def)
    then have "now (emit i j u) = now s" "framed (emit i j u) = framed s @ (more @ [e])"
      "timeout (emit i j u) = Some (now s + timer_delay (timeoutMs i))"
      "timedOut (emit i j u) = timedOut s"
      using Inr by (simp_all add: emit_def Let_def resetTimeout_def chain_then_def split: option.splits)
    then show ?thesis unfolding P_def by (intro conjI exI [of _ "more @ [e]"]) simp_all
  qed
  have buf: "P (u\<lparr>parseBuffer := b\<rparr>)" if "P u" for u b
    using that by (simp add: P_def)
  have loop: "P (scan_loop i u)" if "P u" for u
    using that by (intro scan_loop_inv [where P = P]) (simp_all add: em buf)
  have start: "P s"
    unfolding P_def by (intro conjI exI [of _ "[]"]) simp_all
  then have "P (s\<lparr>stdout := a, stdoutTruncated := b, parseBuffer := c\<rparr>)"
    "P (s\<lparr>stdout := a, parseBuffer := c\<rparr>)" "P (s\<lparr>parseBuffer := c\<rparr>)"
    "P (s\<lparr>stdout := a, stdoutTruncated := b\<rparr>)" "P (s\<lparr>stdout := a\<rparr>)" for a b c
    by (simp_all add: P_def)
  with start have "P (on_stdout i chunk s)"
    by (simp add: on_stdout_def Let_def loop)
  then show ?thesis
    by (auto simp: P_def)
qed

lemma timing_on_close:
  "timedOut (on_close i code s) = timedOut s \<and> now (on_close i code s) = now s"
proof (cases "timedOut s")
  case True
  then show ?thesis by (simp add: on_close_def Let_def)
next
  case False
  then show ?thesis by (simp add: on_close_def Let_def split: sum.splits)
qed

lemma timing_handle:
  "timedOut (handle i e s) = timedOut s \<and> now (handle i e s) = now s"
proof (cases e)
  case (Stdout x)
  then show ?thesis by (simp add: on_stdout_timer)
next
  case (Stderr x)
  then show ?thesis by (simp add: on_stderr_def Let_def)
next
  case (Settled r)
  then show ?thesis by (simp add: timing_callback_settled)
next
  case (Closed code)
  then show ?thesis by (simp add: timing_on_close)
next
  case (Failed msg)
  then show ?thesis by (simp add: on_error_def)
next
  case Tick
  then show ?thesis by simp
qed

lemma advance_fires:
  "timedOut (advance dt s) \<longleftrightarrow> timedOut s \<or> (\<exists>d. timeout s = Some d \<and> d \<le> now s + dt)"
  by (simp add: advance_def Let_def killOnTimeout_def split: option.splits)

lemma timedOut_run_mono: "timedOut s \<Longrightarrow> timedOut (run i tes s)"
  by (induction tes arbitrary: s) (simp_all add: step_def timing_handle advance_fires)

lemma quiet_step_timer:
  assumes "running e" and "framed (handle i e u) = framed u"
  shows "timeout (handle i e u) = timeout u"
proof (cases e)
  case (Stdout x)
  with assms(2) show ?thesis by (simp add: on_stdout_timer)
next
  case (Stderr x)
  then show ?thesis by (simp add: on_stderr_def Let_def)
next
  case (Settled r)
  then show ?thesis by (simp add: timing_callback_settled)
next
  case (Closed code)
  with assms(1) show ?thesis by simp
next
  case (Failed msg)
  with assms(1) show ?thesis by simp
next
  case Tick
  then show ?thesis by simp
qed

lemma framed_grows_timer:
  assumes "framed (handle i e u) \<noteq> framed u"
  shows "timeout (handle i e u) = Some (now u + timer_delay (timeoutMs i))"
proof (cases e)
  case (Stdout x)
  with assms show ?thesis by (simp add: on_stdout_timer)
next
  case (Stderr x)
  have "framed (on_stderr i x u) = framed u" by (simp add: on_stderr_def Let_def)
  with assms Stderr show ?thesis by simp
next
  case (Settled r)
  have "framed (callback_settled r u) = framed u"
    by (simp add: callback_settled_def split: list.splits task.splits io.splits)
  with assms Settled show ?thesis by simp
next
  case (Closed code)
  have "framed (on_close i code u) = framed u"
  proof (cases "timedOut u")
    case True
    then show ?thesis by (simp add: on_close_def Let_def chain_then_def resolve_def split: option.splits)
  next
    case False
    then show ?thesis
      by (simp add: on_close_def Let_def chain_then_def resolve_def split: option.splits sum.splits)
  qed
  with assms Closed show ?thesis by simp
next
  case (Failed msg)
  have "framed (on_error msg u) = framed u"
    by (simp add: on_error_def resolve_def split: option.splits)
  with assms Failed show ?thesis by simp
next
  case Tick
  with assms show ?thesis by simp
qed

text \<open>The timer of a run in which the worker has neither closed nor reported an error
  fires exactly when the time since the last streamed event reaches its delay.\<close>

lemma paced_run:
  assumes "list_all running (map snd tes)" and "\<not> timedOut u" and "timeout u = Some d"
      and "d + idle = now u + timer_delay (timeoutMs i)" and "idle < timer_delay (timeoutMs i)"
  shows "timedOut (run i tes u) \<longleftrightarrow> \<not> paced i (timer_delay (timeoutMs i)) idle tes u"
  using assms
proof (induction tes arbitrary: u d idle)
  case Nil
  then show ?case by simp
next
  case (Cons te tes)
  define D where "D = timer_delay (timeoutMs i)"
  define u1 where "u1 = advance (fst te) u"
  define u2 where "u2 = handle i (snd te) u1"
  have st: "step i te u = u2"
    by (simp add: step_def u1_def u2_def)
  have lv: "running (snd te)" "list_all running (map snd tes)"
    using Cons.prems(1) by simp_all
  show ?case
  proof (cases "idle + fst te < D")
    case False
    with Cons.prems have "d \<le> now u + fst te" by (simp add: D_def)
    with Cons.prems have "timedOut u1" by (simp add: u1_def advance_fires)
    then have "timedOut u2" by (simp add: u2_def timing_handle)
    then have "timedOut (run i tes u2)" by (rule timedOut_run_mono)
    with False show ?thesis by (simp add: st D_def)
  next
    case True
    with Cons.prems have nd: "\<not> d \<le> now u + fst te" by (simp add: D_def)
    with Cons.prems have u1: "u1 = u\<lparr>now := now u + fst te\<rparr>"
      by (simp add: u1_def advance_def Let_def)
    have nt: "\<not> timedOut u2" and nw: "now u2 = now u + fst te"
      using Cons.prems(2) by (simp_all add: u2_def timing_handle u1)
    have fr1: "framed u1 = framed u" by (simp add: u1)
    show ?thesis
    proof (cases "framed u2 = framed u")
      case same: True
      then have "framed (handle i (snd te) u1) = framed u1" by (simp add: u2_def fr1)
      then have "timeout u2 = timeout u1"
        unfolding u2_def by (rule quiet_step_timer [OF lv(1)])
      with Cons.prems have t2: "timeout u2 = Some d" by (simp add: u1)
      have "timedOut (run i tes u2) \<longleftrightarrow> \<not> paced i (timer_delay (timeoutMs i)) (idle + fst te) tes u2"
        using lv(2) nt t2 Cons.prems(4) True by (intro Cons.IH) (simp_all add: nw D_def)
      with True same show ?thesis by (simp add: st D_def)
    next
      case grown: False
      then have "framed (handle i (snd te) u1) \<noteq> framed u1" by (simp add: u2_def fr1)
      then have "timeout u2 = Some (now u1 + timer_delay (timeoutMs i))"
        unfolding u2_def by (rule framed_grows_timer)
      then have t2: "timeout u2 = Some (now u2 + timer_delay (timeoutMs i))" by (simp add: nw u1)
      have "timedOut (run i tes u2) \<longleftrightarrow> \<not> paced i (timer_delay (timeoutMs i)) 0 tes u2"
        using lv(2) nt t2 timer_delay_pos [of "timeoutMs i"] by (intro Cons.IH) simp_all
      with True grown show ?thesis by (simp add: st D_def)
    qed
  qed
qed

text \<open>
  Claim C2, amended. There is one timer. Its delay is computed from the configuration and
  is at least the idle timeout plus 30 seconds, and it is the delay the timer really gets
  as long as it does not exceed 2147483647 milliseconds. The timer is set at the spawn. In
  a run in which the worker has neither closed nor reported an error: the worker was sent \<open>SIGTERM\<close> exactly when
  the timer has fired, and the timer has fired exactly when, at some event of the run, the
  time since the last streamed event (since the spawn, if there was none) had reached the
  delay; so a worker that streams events at shorter intervals is not killed, however long
  it runs. As long as the timer has not fired it is pending and due within one delay from
  now; when time passes it fires if and only if it is due; no handler sets \<open>timedOut\<close>;
  data on stdout sets the timer again to one full delay from now exactly when an event was
  parsed from it, and data on stderr and the end of a delivery leave it as it is.
\<close>

theorem timer_rearmed_by_output:
  assumes "list_all running (map snd tes)" and "s = run i tes (spawn i inp)"
  shows "IDLE_TIMEOUT (i_cfg i) + 30000 \<le> timeoutMs i \<and> configTimeout i \<le> timeoutMs i
       \<and> (timeoutMs i \<le> 2147483647 \<longrightarrow> timer_delay (timeoutMs i) = timeoutMs i)
       \<and> timeout (spawn i inp) = Some (timer_delay (timeoutMs i))
       \<and> (timedOut s \<longleftrightarrow> Kill SIGTERM \<in> set (effects s))
       \<and> (timedOut s \<longleftrightarrow> \<not> paced i (timer_delay (timeoutMs i)) 0 tes (spawn i inp))
       \<and> (\<not> timedOut s \<longrightarrow>
            (\<exists>d. timeout s = Some d \<and> now s < d \<and> d \<le> now s + timer_delay (timeoutMs i)))
       \<and> (timedOut (advance dt s) \<longleftrightarrow> timedOut s \<or> (\<exists>d. timeout s = Some d \<and> d \<le> now s + dt))
       \<and> timedOut (handle i e s) = timedOut s
       \<and> timeout (on_stdout i chunk s)
           = (if framed (on_stdout i chunk s) = framed s then timeout s
              else Some (now s + timer_delay (timeoutMs i)))
       \<and> timeout (on_stderr i chunk s) = timeout s
       \<and> timeout (callback_settled r s) = timeout s"
proof -
  have f1: "IDLE_TIMEOUT (i_cfg i) + 30000 \<le> timeoutMs i"
    and f2: "configTimeout i \<le> timeoutMs i"
    by (simp_all add: timeoutMs_def)
  from f1 have "1 \<le> timeoutMs i" by simp
  then have delay: "timeoutMs i \<le> 2147483647 \<longrightarrow> timer_delay (timeoutMs i) = timeoutMs i"
    by (simp add: timer_delay_def)
  have sp: "timeout (spawn i inp) = Some (timer_delay (timeoutMs i))"
      "now (spawn i inp) = 0" "\<not> timedOut (spawn i inp)"
    by (simp_all add: spawn_def resetTimeout_def delete_secrets_def write_stdin_def
        set_secrets_def fresh_def)
  have kl: "timedOut s \<longleftrightarrow> Kill SIGTERM \<in> set (effects s)"
    using kill_logged_run [OF kill_logged_spawn, of i tes i inp]
    unfolding assms(2) by (simp add: kill_logged_def)
  have pc: "timedOut s \<longleftrightarrow> \<not> paced i (timer_delay (timeoutMs i)) 0 tes (spawn i inp)"
    unfolding assms(2) using assms(1) sp(3) sp(1) timer_delay_pos [of "timeoutMs i"]
    by (intro paced_run) (simp_all add: sp(2))
  have ar: "\<not> timedOut s \<longrightarrow>
            (\<exists>d. timeout s = Some d \<and> now s < d \<and> d \<le> now s + timer_delay (timeoutMs i))"
    using armed_run [OF assms(1) armed_spawn, of i inp]
    unfolding assms(2) armed_def by blast
  have adv: "timedOut (advance dt s) \<longleftrightarrow> timedOut s \<or> (\<exists>d. timeout s = Some d \<and> d \<le> now s + dt)"
    by (rule advance_fires)
  have hd: "timedOut (handle i e s) = timedOut s"
    by (simp add: timing_handle)
  have so: "timeout (on_stdout i chunk s)
           = (if framed (on_stdout i chunk s) = framed s then timeout s
              else Some (now s + timer_delay (timeoutMs i)))"
    by (simp add: on_stdout_timer)
  have se: "timeout (on_stderr i chunk s) = timeout s"
    by (simp add: on_stderr_def Let_def)
  have cs: "timeout (callback_settled r s) = timeout s"
    by (simp add: timing_callback_settled)
  show ?thesis
    using f1 f2 delay sp(1) kl pc ar adv hd so se cs by (intro conjI) assumption+
qed

theorem timer_rearmed_by_output_witness:
  "timeoutMs streaming \<le> 2147483647 \<and> timer_delay (timeoutMs streaming) = 100000
   \<and> list_all running (map snd [(60000, Stdout (frame payload_one)), (60000, Stderr ''warn''), (39999, Tick)])
   \<and> paced streaming 100000 0 [(60000, Stdout (frame payload_one)), (60000, Stderr ''warn''), (39999, Tick)]
        (spawn streaming sample_input)
   \<and> view_timer (run streaming [(60000, Stdout (frame payload_one)), (60000, Stderr ''warn''), (39999, Tick)]
        (spawn streaming sample_input)) = (159999, Some 160000, False, False)
   \<and> list_all running (map snd [(60000, Stdout (frame payload_one)), (60000, Stderr ''warn''), (40000, Tick)])
   \<and> \<not> paced streaming 100000 0 [(60000, Stdout (frame payload_one)), (60000, Stderr ''warn''), (40000, Tick)]
        (spawn streaming sample_input)
   \<and> view_timer (run streaming [(60000, Stdout (frame payload_one)), (60000, Stderr ''warn''), (40000, Tick)]
        (spawn streaming sample_input)) = (160000, None, True, True)"
proof -
  define a where "a = [(60000::nat, Stdout (frame payload_one)), (60000, Stderr ''warn''), (39999, Tick)]"
  define b where "b = [(60000::nat, Stdout (frame payload_one)), (60000, Stderr ''warn''), (40000, Tick)]"
  define s where "s = run streaming a (spawn streaming sample_input)"
  define t where "t = run streaming b (spawn streaming sample_input)"
  have la: "list_all running (map snd a)" and lb: "list_all running (map snd b)"
    by (simp_all add: a_def b_def)
  have dl: "timer_delay (timeoutMs streaming) = 100000"
    by (simp add: run_eval)
  have sm: "timeoutMs streaming \<le> 2147483647"
    by (simp add: run_eval)
  have es: "fst (view_timer s) = 159999 \<and> fst (snd (view_timer s)) = Some 160000
      \<and> \<not> fst (snd (snd (view_timer s)))"
    unfolding s_def a_def by (simp add: run_eval)
  have et: "fst (view_timer t) = 160000 \<and> fst (snd (view_timer t)) = None
      \<and> fst (snd (snd (view_timer t)))"
    unfolding t_def b_def by (simp add: run_eval)
  have ts: "(timedOut s \<longleftrightarrow> Kill SIGTERM \<in> set (effects s))
      \<and> (timedOut s \<longleftrightarrow> \<not> paced streaming 100000 0 a (spawn streaming sample_input))"
    using timer_rearmed_by_output [OF la s_def] unfolding dl by blast
  have tt: "(timedOut t \<longleftrightarrow> Kill SIGTERM \<in> set (effects t))
      \<and> (timedOut t \<longleftrightarrow> \<not> paced streaming 100000 0 b (spawn streaming sample_input))"
    using timer_rearmed_by_output [OF lb t_def] unfolding dl by blast
  from es ts have "paced streaming 100000 0 a (spawn streaming sample_input)
      \<and> view_timer s = (159999, Some 160000, False, False)"
    by (auto simp: view_timer_def)
  moreover from et tt have "\<not> paced streaming 100000 0 b (spawn streaming sample_input)
      \<and> view_timer t = (160000, None, True, True)"
    by (auto simp: view_timer_def)
  ultimately show ?thesis
    using la lb dl sm unfolding s_def t_def a_def b_def by simp
qed

text \<open>
  Claim C2, as stated, fails: with a timeout of 100 seconds, a worker that streams an
  event after 99.999 seconds and another 99.999 seconds later is still running, with no
  signal sent, 299.997 seconds after the spawn; the timer is then due at 299.998. And
  the delay of the timer can be smaller than the idle timeout plus 30 seconds: for a group
  configured with a timeout of 3000000000 milliseconds the timer is due 1 millisecond
  after the spawn, and the worker is killed then.
\<close>

theorem streaming_worker_outlives_timeout:
  "timeoutMs streaming = 100000
   \<and> framed (run streaming [(99999, Stdout (frame payload_one)), (99999, Stdout (frame payload_two)),
        (99999, Tick)] (spawn streaming sample_input)) = [output_one, output_two]
   \<and> view_timer (run streaming [(99999, Stdout (frame payload_one)), (99999, Stdout (frame payload_two)),
        (99999, Tick)] (spawn streaming sample_input)) = (299997, Some 299998, False, False)
   \<and> timeoutMs patient = 3000000000
   \<and> view_timer (run patient [(1, Tick)] (spawn patient sample_input)) = (1, None, True, True)"
proof -
  define s where "s = run streaming [(99999, Stdout (frame payload_one)),
        (99999, Stdout (frame payload_two)), (99999, Tick)] (spawn streaming sample_input)"
  have ev: "view_timer s = (299997, Some 299998, False, False) \<and> framed s = [output_one, output_two]"
    unfolding s_def by (simp add: run_eval)
  have "timeoutMs streaming = 100000"
    by (simp add: run_eval)
  moreover have "timeoutMs patient = 3000000000"
    by (simp add: run_eval)
  moreover have "view_timer (run patient [(1, Tick)] (spawn patient sample_input)) = (1, None, True, True)"
    by (simp add: run_eval)
  ultimately show ?thesis
    using ev unfolding s_def [symmetric] by simp
qed

subsection \<open>Legacy mode\<close>

text \<open>
  Claim C3. The worker writes two marker pairs and exits with code 0, and no callback is
  registered. The close handler looks for the first start marker and the first end
  marker, so it parses the payload of the first pair and resolves with its event; the
  claim, like the comment above that code, says the last pair. This is so when the
  captured output is cut inside the second pair (a ceiling of 100 characters) and when
  both pairs are captured whole (a ceiling of 1000 characters).
\<close>

theorem legacy_takes_first_pair:
  "legacy_jsonLine (frame payload_one @ frame payload_two) = payload_one
   \<and> resolved (run legacy [(10, Stdout (frame payload_one @ frame payload_two)), (5, Closed (Some 0))]
        (spawn legacy sample_input)) = Some output_one
   \<and> view_capture (run wide [(10, Stdout (frame payload_one @ frame payload_two))]
        (spawn wide sample_input)) = (frame payload_one @ frame payload_two, False, [])
   \<and> resolved (run wide [(10, Stdout (frame payload_one @ frame payload_two)), (5, Closed (Some 0))]
        (spawn wide sample_input)) = Some output_one"
  by (simp add: run_eval)

subsection \<open>Deliveries\<close>

lemma one_by_one_append: "one_by_one (xs @ ys) = one_by_one xs @ one_by_one ys"
  by (induction xs) simp_all

lemma delivers_append: "delivers (ts @ us) = delivers ts @ delivers us"
  by (induction ts rule: delivers.induct) simp_all

lemma delivers_map [simp]: "delivers (map Deliver es) = es"
  by (induction es) simp_all

lemma chain_resolve [simp]:
  "chain_rejected (resolve r s) = chain_rejected s" "outputChain (resolve r s) = outputChain s"
  "framed (resolve r s) = framed s" "deliveries (effects (resolve r s)) = deliveries (effects s)"
  "hadStreamingOutput (resolve r s) = hadStreamingOutput s"
  by (simp_all add: resolve_def set_deliveries_append split: option.splits)

lemma orderly_with_cong:
  "chain_rejected t = chain_rejected s \<Longrightarrow> outputChain t = outputChain s \<Longrightarrow> framed t = framed s
   \<Longrightarrow> deliveries (effects t) = deliveries (effects s) \<Longrightarrow> orderly_with d t = orderly_with d s"
  by (simp add: orderly_with_def)

lemma orderly_cong:
  "chain_rejected t = chain_rejected s \<Longrightarrow> outputChain t = outputChain s \<Longrightarrow> framed t = framed s
   \<Longrightarrow> deliveries (effects t) = deliveries (effects s) \<Longrightarrow> orderly t = orderly s"
  by (simp add: orderly_def orderly_with_cong [of t s])

lemma orderly_run_chain:
  "\<not> chain_rejected s \<Longrightarrow> framed s = d @ delivers ts \<Longrightarrow> deliveries (effects s) = one_by_one d
   \<Longrightarrow> orderly_with d (run_chain ts s)"
proof (induction ts s rule: run_chain.induct)
  case (1 s)
  then show ?case by (simp add: orderly_with_def head_ok_def in_flight_def)
next
  case (2 r ts s)
  then show ?case by simp
next
  case (3 e ts s)
  then show ?case
    by (simp add: orderly_with_def head_ok_def in_flight_def set_deliveries_append)
qed

lemma orderly_with_idle:
  "orderly_with d s \<Longrightarrow> outputChain s = [] \<Longrightarrow> framed s = d \<and> deliveries (effects s) = one_by_one d"
  by (simp add: orderly_with_def in_flight_def)

lemma orderly_chain_then_deliver:
  assumes "orderly s"
  shows "orderly (chain_then (Deliver e) (s\<lparr>framed := framed s @ [e]\<rparr>))"
proof -
  from assms obtain d where d: "orderly_with d s" by (auto simp: orderly_def)
  then have nr: "\<not> chain_rejected s" by (simp add: orderly_with_def)
  show ?thesis
  proof (cases "outputChain s")
    case Nil
    with d have "framed s = d" "deliveries (effects s) = one_by_one d"
      by (simp_all add: orderly_with_idle)
    then have "orderly_with d (run_chain [Deliver e] (s\<lparr>framed := framed s @ [e]\<rparr>))"
      using nr by (intro orderly_run_chain) simp_all
    with Nil nr show ?thesis by (auto simp: chain_then_def orderly_def)
  next
    case (Cons t ts)
    with d obtain e0 where t: "t = Deliver e0"
      by (cases t) (simp_all add: orderly_with_def head_ok_def)
    with d Cons have "orderly_with d (s\<lparr>framed := framed s @ [e], outputChain := outputChain s @ [Deliver e]\<rparr>)"
      by (simp add: orderly_with_def head_ok_def in_flight_def delivers_append)
    with Cons nr show ?thesis by (auto simp: chain_then_def orderly_def)
  qed
qed

lemma orderly_chain_then_settle:
  assumes "orderly s"
  shows "orderly (chain_then (Settle r) s)"
proof -
  from assms obtain d where d: "orderly_with d s" by (auto simp: orderly_def)
  then have nr: "\<not> chain_rejected s" by (simp add: orderly_with_def)
  show ?thesis
  proof (cases "outputChain s")
    case Nil
    with d have "framed s = d" "deliveries (effects s) = one_by_one d"
      by (simp_all add: orderly_with_idle)
    then have "orderly_with d (run_chain [Settle r] s)"
      using nr by (intro orderly_run_chain) simp_all
    with Nil nr show ?thesis by (auto simp: chain_then_def orderly_def)
  next
    case (Cons t ts)
    with d obtain e0 where t: "t = Deliver e0"
      by (cases t) (simp_all add: orderly_with_def head_ok_def)
    with d Cons have "orderly_with d (s\<lparr>outputChain := outputChain s @ [Settle r]\<rparr>)"
      by (simp add: orderly_with_def head_ok_def in_flight_def delivers_append)
    with Cons nr show ?thesis by (auto simp: chain_then_def orderly_def)
  qed
qed

lemma orderly_emit: "orderly s \<Longrightarrow> orderly (emit i j s)"
proof (cases "i_parse i j")
  case (Inl m)
  assume "orderly s"
  with Inl show ?thesis by (simp add: emit_def)
next
  case (Inr e)
  assume s: "orderly s"
  define u where "u = resetTimeout i
     ((case newSessionId e of None \<Rightarrow> s
       | Some sid \<Rightarrow> if sid \<noteq> [] then s\<lparr>newSessionId_var := Some sid\<rparr> else s)
      \<lparr>hadStreamingOutput := True\<rparr>)"
  have "orderly u = orderly s"
    by (rule orderly_cong) (simp_all add: u_def resetTimeout_def split: option.splits)
  with s have "orderly u" by simp
  then have "orderly (chain_then (Deliver e) (u\<lparr>framed := framed u @ [e]\<rparr>))"
    by (rule orderly_chain_then_deliver)
  with Inr show ?thesis by (simp add: emit_def Let_def u_def)
qed

lemma orderly_on_stdout: "orderly s \<Longrightarrow> orderly (on_stdout i chunk s)"
proof -
  assume s: "orderly s"
  have upd: "orderly (u\<lparr>parseBuffer := b\<rparr>)" if "orderly u" for u b
    using that orderly_cong [of "u\<lparr>parseBuffer := b\<rparr>" u] by simp
  have loop: "orderly (scan_loop i u)" if "orderly u" for u
    using that by (intro scan_loop_inv [where P = orderly]) (simp_all add: orderly_emit upd)
  have "orderly (s\<lparr>stdout := a, stdoutTruncated := b, parseBuffer := c\<rparr>)"
    "orderly (s\<lparr>stdout := a, parseBuffer := c\<rparr>)" "orderly (s\<lparr>parseBuffer := c\<rparr>)"
    "orderly (s\<lparr>stdout := a, stdoutTruncated := b\<rparr>)" "orderly (s\<lparr>stdout := a\<rparr>)" for a b c
    using s orderly_cong [of "s\<lparr>stdout := a, stdoutTruncated := b, parseBuffer := c\<rparr>" s]
      orderly_cong [of "s\<lparr>stdout := a, parseBuffer := c\<rparr>" s]
      orderly_cong [of "s\<lparr>parseBuffer := c\<rparr>" s]
      orderly_cong [of "s\<lparr>stdout := a, stdoutTruncated := b\<rparr>" s]
      orderly_cong [of "s\<lparr>stdout := a\<rparr>" s]
    by simp_all
  then show ?thesis
    using s by (simp add: on_stdout_def Let_def loop)
qed

lemma orderly_settled_done: "orderly s \<Longrightarrow> orderly (callback_settled Done s)"
proof (cases "outputChain s")
  case Nil
  assume "orderly s"
  with Nil show ?thesis by (simp add: callback_settled_def)
next
  case (Cons t ts)
  assume "orderly s"
  then obtain d where d: "orderly_with d s" by (auto simp: orderly_def)
  with Cons obtain e where t: "t = Deliver e"
    by (cases t) (simp_all add: orderly_with_def head_ok_def)
  from d Cons t have fr: "framed s = (d @ [e]) @ delivers ts"
    and dl: "deliveries (effects s) = one_by_one d @ [Deliver_begin e]"
    and nr: "\<not> chain_rejected s"
    by (simp_all add: orderly_with_def in_flight_def)
  have "orderly_with (d @ [e]) (run_chain ts (s\<lparr>effects := effects s @ [Deliver_end e Done]\<rparr>))"
    using fr dl nr by (intro orderly_run_chain) (simp_all add: set_deliveries_append one_by_one_append)
  with Cons t show ?thesis by (auto simp: callback_settled_def orderly_def)
qed

lemma orderly_on_close: "orderly s \<Longrightarrow> orderly (on_close i code s)"
proof -
  assume s: "orderly s"
  have a: "orderly (s\<lparr>timeout := None, effects := effects s @ [File_write l]\<rparr>)" for l
    using s orderly_cong [of "s\<lparr>timeout := None, effects := effects s @ [File_write l]\<rparr>" s]
    by (simp add: set_deliveries_append)
  have r: "orderly (resolve x u)" if "orderly u" for x u
    using that orderly_cong [of "resolve x u" u] by simp
  show ?thesis
  proof (cases "timedOut s")
    case True
    then show ?thesis
      by (simp add: on_close_def Let_def a orderly_chain_then_settle r)
  next
    case False
    then show ?thesis
      by (simp add: on_close_def Let_def a orderly_chain_then_settle r split: sum.splits)
  qed
qed

lemma orderly_advance: "orderly s \<Longrightarrow> orderly (advance dt s)"
proof -
  assume s: "orderly s"
  have "orderly (advance dt s) = orderly s"
    by (rule orderly_cong)
       (simp_all add: advance_def Let_def killOnTimeout_def set_deliveries_append split: option.splits)
  with s show ?thesis by simp
qed

lemma orderly_handle: "calm e \<Longrightarrow> orderly s \<Longrightarrow> orderly (handle i e s)"
proof (cases e)
  case (Stdout x)
  assume "orderly s"
  with Stdout show ?thesis by (simp add: orderly_on_stdout)
next
  case (Stderr x)
  assume s: "orderly s"
  have "orderly (on_stderr i x s) = orderly s"
    by (rule orderly_cong) (simp_all add: on_stderr_def Let_def)
  with s Stderr show ?thesis by simp
next
  case (Settled r)
  assume "calm e" and s: "orderly s"
  with Settled have "r = Done" by (cases r) simp_all
  with s Settled show ?thesis by (simp add: orderly_settled_done)
next
  case (Closed code)
  assume "orderly s"
  with Closed show ?thesis by (simp add: orderly_on_close)
next
  case (Failed msg)
  assume s: "orderly s"
  have "orderly (on_error msg s) = orderly s"
    by (rule orderly_cong) (simp_all add: on_error_def)
  with s Failed show ?thesis by simp
next
  case Tick
  assume "orderly s"
  with Tick show ?thesis by simp
qed

lemma orderly_spawn: "orderly (spawn i inp)"
  by (simp add: orderly_def orderly_with_def head_ok_def in_flight_def spawn_def resetTimeout_def
      delete_secrets_def write_stdin_def set_secrets_def fresh_def)
lemma run_chain_deliveries:
  "run_chain (map Deliver es) s =
     (case es of [] \<Rightarrow> s\<lparr>outputChain := []\<rparr>
      | e # rest \<Rightarrow> s\<lparr>outputChain := map Deliver es, effects := effects s @ [Deliver_begin e]\<rparr>)"
  by (cases es) simp_all

lemma deliveries_one_by_one [simp]: "deliveries (one_by_one es) = one_by_one es"
  by (induction es) simp_all

lemma settle_step:
  "timeout u = None \<Longrightarrow> outputChain u = Deliver e # ts \<Longrightarrow>
   step i (dt, Settled Done) u
     = run_chain ts (u\<lparr>now := now u + dt, effects := effects u @ [Deliver_end e Done]\<rparr>)"
  by (simp add: step_def advance_def Let_def callback_settled_def)

lemma drain_settles:
  assumes "outputChain u = map Deliver (e # es) @ [Settle r]" and "resolved u = None"
      and "timeout u = None"
  shows "resolved (run i (replicate (Suc (length es)) (dt, Settled Done)) u) = Some r
       \<and> effects (run i (replicate (Suc (length es)) (dt, Settled Done)) u)
           = effects u @ Deliver_end e Done # one_by_one es @ [Resolve r]
       \<and> (\<forall>j \<le> length es. resolved (run i (replicate j (dt, Settled Done)) u) = None)"
  using assms
proof (induction es arbitrary: e u)
  case Nil
  then have "step i (dt, Settled Done) u
      = run_chain [Settle r] (u\<lparr>now := now u + dt, effects := effects u @ [Deliver_end e Done]\<rparr>)"
    by (intro settle_step) simp_all
  with Nil show ?case by (simp add: resolve_def)
next
  case (Cons e' es)
  define u1 where "u1 = step i (dt, Settled Done) u"
  have "u1 = run_chain (map Deliver (e' # es) @ [Settle r])
               (u\<lparr>now := now u + dt, effects := effects u @ [Deliver_end e Done]\<rparr>)"
    unfolding u1_def using Cons.prems by (intro settle_step) simp_all
  then have u1: "u1 = u\<lparr>now := now u + dt, effects := effects u @ [Deliver_end e Done],
                  outputChain := map Deliver (e' # es) @ [Settle r],
                  effects := effects u @ [Deliver_end e Done, Deliver_begin e']\<rparr>"
    by simp
  have ih: "resolved (run i (replicate (Suc (length es)) (dt, Settled Done)) u1) = Some r
       \<and> effects (run i (replicate (Suc (length es)) (dt, Settled Done)) u1)
           = effects u1 @ Deliver_end e' Done # one_by_one es @ [Resolve r]
       \<and> (\<forall>j \<le> length es. resolved (run i (replicate j (dt, Settled Done)) u1) = None)"
    using Cons.prems by (intro Cons.IH) (simp_all add: u1)
  have none: "resolved (run i (replicate j (dt, Settled Done)) u) = None" if "j \<le> length (e' # es)" for j
  proof (cases j)
    case 0
    with Cons.prems show ?thesis by simp
  next
    case (Suc j')
    with that ih show ?thesis by (simp add: u1_def)
  qed
  have "effects u1 = effects u @ [Deliver_end e Done, Deliver_begin e']"
    by (simp add: u1)
  with ih none show ?case
    by (simp add: u1_def [symmetric])
qed

lemma close_then_drain:
  assumes q: "quiet s" and o: "orderly s"
      and path: "(timedOut s \<and> hadStreamingOutput s) \<or> (\<not> timedOut s \<and> code = Some 0 \<and> i_onOutput i)"
  shows "resolved (run i (replicate (length (outputChain s)) (dt, Settled Done)) (on_close i code s))
           = Some (soft_success s)
       \<and> deliveries (effects (run i (replicate (length (outputChain s)) (dt, Settled Done))
           (on_close i code s))) = one_by_one (framed s)
       \<and> (\<exists>pre. effects (run i (replicate (length (outputChain s)) (dt, Settled Done))
           (on_close i code s)) = pre @ [Resolve (soft_success s)])
       \<and> (\<forall>j < length (outputChain s).
             resolved (run i (replicate j (dt, Settled Done)) (on_close i code s)) = None)"
proof -
  from o obtain d where d: "orderly_with d s" by (auto simp: orderly_def)
  then have nr: "\<not> chain_rejected s" by (simp add: orderly_with_def)
  from q have res: "resolved s = None" by (simp add: quiet_def)
  have "\<exists>l. on_close i code s
      = chain_then (Settle (soft_success s)) (s\<lparr>timeout := None, effects := effects s @ [File_write l]\<rparr>)"
  proof (cases "timedOut s")
    case True
    with path have h: "hadStreamingOutput s" by simp
    show ?thesis
      by (rule exI [of _ "Timeout_log code (hadStreamingOutput s)"])
         (simp add: on_close_def Let_def soft_success_def True h)
  next
    case False
    with path have p: "code = Some 0" "i_onOutput i" by simp_all
    show ?thesis
      by (rule exI [of _ "Run_log code (stdoutTruncated s) (stderrTruncated s)
             (if i_verbose i then Full (input s) (stderr s) (stdout s)
              else Summary (length (prompt (input s))) (session_or_new (input s)))"])
         (simp add: on_close_def Let_def soft_success_def False p)
  qed
  then obtain l where c: "on_close i code s
      = chain_then (Settle (soft_success s)) (s\<lparr>timeout := None, effects := effects s @ [File_write l]\<rparr>)"
    by blast
  define s1 where "s1 = s\<lparr>timeout := None, effects := effects s @ [File_write l]\<rparr>"
  show ?thesis
  proof (cases "delivers (outputChain s)")
    case Nil
    with q have ch: "outputChain s = []" by (simp add: quiet_def)
    with d have "deliveries (effects s) = one_by_one (framed s)"
      by (simp add: orderly_with_idle)
    with ch nr res show ?thesis
      by (simp add: c chain_then_def resolve_def set_deliveries_append)
  next
    case (Cons e es)
    with q have ch: "outputChain s = Deliver e # map Deliver es" by (simp add: quiet_def)
    then have oc: "on_close i code s = s1\<lparr>outputChain := map Deliver (e # es) @ [Settle (soft_success s)]\<rparr>"
      using nr by (simp add: c chain_then_def s1_def)
    define u where "u = s1\<lparr>outputChain := map Deliver (e # es) @ [Settle (soft_success s)]\<rparr>"
    have dr: "resolved (run i (replicate (Suc (length es)) (dt, Settled Done)) u) = Some (soft_success s)
       \<and> effects (run i (replicate (Suc (length es)) (dt, Settled Done)) u)
           = effects u @ Deliver_end e Done # one_by_one es @ [Resolve (soft_success s)]
       \<and> (\<forall>j \<le> length es. resolved (run i (replicate j (dt, Settled Done)) u) = None)"
      using res by (intro drain_settles) (simp_all add: u_def s1_def)
    from d ch have fr: "framed s = d @ e # es"
      and dl: "deliveries (effects s) = one_by_one d @ [Deliver_begin e]"
      by (simp_all add: orderly_with_def in_flight_def)
    have len: "length (outputChain s) = Suc (length es)" by (simp add: ch)
    have eu: "deliveries (effects u) = one_by_one d @ [Deliver_begin e]"
      by (simp add: u_def s1_def set_deliveries_append dl)
    have "deliveries (effects (run i (replicate (Suc (length es)) (dt, Settled Done)) u))
            = one_by_one (framed s)"
      using dr by (simp add: set_deliveries_append eu fr one_by_one_append)
    moreover have "\<exists>pre. effects (run i (replicate (Suc (length es)) (dt, Settled Done)) u)
            = pre @ [Resolve (soft_success s)]"
      using dr by (metis append.assoc append_Cons)
    ultimately show ?thesis
      using dr unfolding oc len u_def [symmetric] by (simp add: less_Suc_eq_le)
  qed
qed

lemma broken_cong:
  assumes "broken s" and "chain_rejected t" and "outputChain t = []"
      and "framed t = framed s @ extra" and "deliveries (effects t) = deliveries (effects s)"
  shows "broken t"
proof -
  from assms(1) obtain finished e rest where
    f: "framed s = finished @ e # rest"
    "deliveries (effects s) = one_by_one finished @ [Deliver_begin e, Deliver_end e Throws]"
    by (auto simp: broken_def)
  have "framed t = finished @ e # (rest @ extra)"
    using assms(4) f(1) by simp
  with assms f(2) show ?thesis
    unfolding broken_def by (intro conjI exI [of _ finished] exI [of _ e] exI [of _ "rest @ extra"]) simp_all
qed

lemma broken_same:
  assumes "broken s" and "chain_rejected t = chain_rejected s" and "outputChain t = outputChain s"
      and "framed t = framed s" and "deliveries (effects t) = deliveries (effects s)"
  shows "broken t"
  using assms(1) by (rule broken_cong [where extra = "[]"]) (use assms in \<open>simp_all add: broken_def\<close>)

lemma broken_emit: "broken s \<Longrightarrow> broken (emit i j s)"
proof (cases "i_parse i j")
  case (Inl m)
  assume "broken s"
  with Inl show ?thesis by (simp add: emit_def)
next
  case (Inr e)
  assume s: "broken s"
  then have rj: "chain_rejected s" "outputChain s = []" by (simp_all add: broken_def)
  show ?thesis
    using s
  proof (rule broken_cong [where extra = "[e]"])
    show "chain_rejected (emit i j s)" "outputChain (emit i j s) = []"
      "framed (emit i j s) = framed s @ [e]"
      "deliveries (effects (emit i j s)) = deliveries (effects s)"
      using Inr rj by (simp_all add: emit_def Let_def resetTimeout_def chain_then_def split: option.splits)
  qed
qed

lemma broken_on_stdout: "broken s \<Longrightarrow> broken (on_stdout i chunk s)"
proof -
  assume s: "broken s"
  have upd: "broken (u\<lparr>parseBuffer := b\<rparr>)" if "broken u" for u b
    using that by (rule broken_same) simp_all
  have loop: "broken (scan_loop i u)" if "broken u" for u
    using that by (intro scan_loop_inv [where P = broken]) (simp_all add: broken_emit upd)
  have "broken (s\<lparr>stdout := a, stdoutTruncated := b, parseBuffer := c\<rparr>)"
    "broken (s\<lparr>stdout := a, parseBuffer := c\<rparr>)" "broken (s\<lparr>parseBuffer := c\<rparr>)"
    "broken (s\<lparr>stdout := a, stdoutTruncated := b\<rparr>)" "broken (s\<lparr>stdout := a\<rparr>)" for a b c
    using s by (simp_all add: broken_def)
  then show ?thesis
    using s by (simp add: on_stdout_def Let_def loop)
qed

lemma broken_resolve: "broken s \<Longrightarrow> broken (resolve r s)"
  by (erule broken_same) simp_all

lemma broken_chain_then: "broken s \<Longrightarrow> chain_then t s = s"
  by (simp add: broken_def chain_then_def)

lemma broken_on_close: "broken s \<Longrightarrow> broken (on_close i code s)"
proof -
  assume s: "broken s"
  have a: "broken (s\<lparr>timeout := None, effects := effects s @ [File_write l]\<rparr>)" for l
    using s by (rule broken_same) (simp_all add: set_deliveries_append)
  show ?thesis
  proof (cases "timedOut s")
    case True
    then show ?thesis
      by (simp add: on_close_def Let_def a broken_chain_then broken_resolve)
  next
    case False
    then show ?thesis
      by (simp add: on_close_def Let_def a broken_chain_then broken_resolve split: sum.splits)
  qed
qed

lemma broken_handle: "broken s \<Longrightarrow> broken (handle i e s)"
proof (cases e)
  case (Stdout x)
  assume "broken s"
  with Stdout show ?thesis by (simp add: broken_on_stdout)
next
  case (Stderr x)
  assume s: "broken s"
  have "broken (on_stderr i x s)"
    using s by (rule broken_same) (simp_all add: on_stderr_def Let_def)
  with Stderr show ?thesis by simp
next
  case (Settled r)
  assume s: "broken s"
  then have "outputChain s = []" by (simp add: broken_def)
  with s Settled show ?thesis by (simp add: callback_settled_def)
next
  case (Closed code)
  assume "broken s"
  with Closed show ?thesis by (simp add: broken_on_close)
next
  case (Failed msg)
  assume s: "broken s"
  have "broken (on_error msg s)"
    using s by (rule broken_same) (simp_all add: on_error_def)
  with Failed show ?thesis by simp
next
  case Tick
  assume "broken s"
  with Tick show ?thesis by simp
qed

lemma broken_advance: "broken s \<Longrightarrow> broken (advance dt s)"
  by (erule broken_same)
     (simp_all add: advance_def Let_def killOnTimeout_def set_deliveries_append split: option.splits)

lemma orderly_rejects: "orderly s \<Longrightarrow> orderly (callback_settled Throws s) \<or> broken (callback_settled Throws s)"
proof (cases "outputChain s")
  case Nil
  assume "orderly s"
  with Nil show ?thesis by (simp add: callback_settled_def)
next
  case (Cons t ts)
  assume "orderly s"
  then obtain d where d: "orderly_with d s" by (auto simp: orderly_def)
  with Cons obtain e where t: "t = Deliver e"
    by (cases t) (simp_all add: orderly_with_def head_ok_def)
  from d Cons t have fr: "framed s = d @ e # delivers ts"
    and dl: "deliveries (effects s) = one_by_one d @ [Deliver_begin e]"
    by (simp_all add: orderly_with_def in_flight_def)
  have cs: "callback_settled Throws s
      = s\<lparr>effects := effects s @ [Deliver_end e Throws], outputChain := [], chain_rejected := True\<rparr>"
    using Cons t by (simp add: callback_settled_def)
  have "broken (callback_settled Throws s)"
    unfolding broken_def cs
    by (intro conjI exI [of _ d] exI [of _ e] exI [of _ "delivers ts"])
       (simp_all add: fr dl set_deliveries_append)
  then show ?thesis by simp
qed

lemma trail_handle: "orderly s \<or> broken s \<Longrightarrow> orderly (handle i e s) \<or> broken (handle i e s)"
proof (cases "broken s")
  case True
  then show ?thesis by (simp add: broken_handle)
next
  case False
  assume "orderly s \<or> broken s"
  with False have o: "orderly s" by simp
  show ?thesis
  proof (cases "calm e")
    case True
    then show ?thesis using o by (simp add: orderly_handle)
  next
    case False
    then have "e = Settled Throws" by (cases e rule: calm.cases) simp_all
    with o show ?thesis by (simp add: orderly_rejects)
  qed
qed

lemma trail_run: "orderly s \<or> broken s \<Longrightarrow> orderly (run i tes s) \<or> broken (run i tes s)"
proof (induction tes arbitrary: s)
  case Nil
  then show ?case by simp
next
  case (Cons te tes)
  from Cons.prems have "orderly (advance (fst te) s) \<or> broken (advance (fst te) s)"
    by (auto simp: orderly_advance broken_advance)
  then have "orderly (step i te s) \<or> broken (step i te s)"
    unfolding step_def by (rule trail_handle)
  then show ?case by (simp add: Cons.IH)
qed

lemma trail_spawn: "orderly (run i tes (spawn i inp)) \<or> broken (run i tes (spawn i inp))"
  by (rule trail_run) (simp add: orderly_spawn)

lemma orderly_not_rejected: "orderly s \<Longrightarrow> \<not> chain_rejected s"
  by (auto simp: orderly_def orderly_with_def)

lemma broken_rejected: "broken s \<Longrightarrow> chain_rejected s"
  by (simp add: broken_def)

lemma shape_emit: "shape s \<Longrightarrow> shape (emit i j s)"
proof (cases "i_parse i j")
  case (Inl m)
  assume "shape s"
  with Inl show ?thesis by (simp add: emit_def)
next
  case (Inr e)
  assume s: "shape s"
  define u where "u = resetTimeout i
     ((case newSessionId e of None \<Rightarrow> s
       | Some sid \<Rightarrow> if sid \<noteq> [] then s\<lparr>newSessionId_var := Some sid\<rparr> else s)
      \<lparr>hadStreamingOutput := True\<rparr>)\<lparr>framed := framed s @ [e]\<rparr>"
  have u: "outputChain u = outputChain s" "hadStreamingOutput u" "framed u \<noteq> []"
    by (simp_all add: u_def resetTimeout_def split: option.splits)
  have em: "emit i j s = chain_then (Deliver e) u"
    using Inr by (simp add: emit_def Let_def u_def resetTimeout_def split: option.splits)
  from s u have ch: "outputChain u = map Deliver (delivers (outputChain u))"
    by (simp add: shape_def)
  have "shape (chain_then (Deliver e) u)"
  proof (cases "chain_rejected u")
    case True
    with u ch show ?thesis by (simp add: chain_then_def shape_def)
  next
    case nr: False
    show ?thesis
    proof (cases "outputChain u = []")
      case True
      with u nr show ?thesis by (simp add: chain_then_def shape_def)
    next
      case False
      with u nr ch show ?thesis
        by (simp add: chain_then_def shape_def delivers_append)
    qed
  qed
  with em show ?thesis by simp
qed

lemma shape_on_stdout: "shape s \<Longrightarrow> shape (on_stdout i chunk s)"
proof -
  assume s: "shape s"
  have upd: "shape (u\<lparr>parseBuffer := b\<rparr>)" if "shape u" for u b
    using that by (simp add: shape_def)
  have loop: "shape (scan_loop i u)" if "shape u" for u
    using that by (intro scan_loop_inv [where P = shape]) (simp_all add: shape_emit upd)
  have "shape (s\<lparr>stdout := a, stdoutTruncated := b, parseBuffer := c\<rparr>)"
    "shape (s\<lparr>stdout := a, parseBuffer := c\<rparr>)" "shape (s\<lparr>parseBuffer := c\<rparr>)"
    "shape (s\<lparr>stdout := a, stdoutTruncated := b\<rparr>)" "shape (s\<lparr>stdout := a\<rparr>)" for a b c
    using s by (simp_all add: shape_def)
  then show ?thesis
    using s by (simp add: on_stdout_def Let_def loop)
qed

lemma shape_settled: "shape s \<Longrightarrow> shape (callback_settled r s)"
proof (cases "delivers (outputChain s)")
  case Nil
  assume "shape s"
  with Nil have "outputChain s = []" by (simp add: shape_def)
  then show ?thesis using \<open>shape s\<close> by (simp add: callback_settled_def)
next
  case (Cons e es)
  assume s: "shape s"
  with Cons have ch: "outputChain s = Deliver e # map Deliver es" by (simp add: shape_def)
  from s show ?thesis
    by (cases es; cases r) (simp_all add: callback_settled_def ch run_chain_deliveries shape_def)
qed

lemma shape_handle: "unclosed e \<Longrightarrow> shape s \<Longrightarrow> shape (handle i e s)"
proof (cases e)
  case (Stdout x)
  assume "shape s"
  with Stdout show ?thesis by (simp add: shape_on_stdout)
next
  case (Stderr x)
  assume "shape s"
  with Stderr show ?thesis by (simp add: on_stderr_def Let_def shape_def)
next
  case (Settled r)
  assume "shape s"
  with Settled show ?thesis by (simp add: shape_settled)
next
  case (Failed msg)
  assume "shape s"
  with Failed show ?thesis by (simp add: on_error_def shape_def)
qed simp_all

lemma shape_advance: "shape s \<Longrightarrow> shape (advance dt s)"
  by (simp add: shape_def advance_def Let_def killOnTimeout_def split: option.splits)

lemma shape_run: "list_all unclosed (map snd tes) \<Longrightarrow> shape s \<Longrightarrow> shape (run i tes s)"
  by (induction tes arbitrary: s) (simp_all add: step_def shape_handle shape_advance)

lemma shape_spawn: "shape (spawn i inp)"
  by (simp add: shape_def spawn_def resetTimeout_def delete_secrets_def write_stdin_def
      set_secrets_def fresh_def)

lemma settled_resolve: "resolved s = Some r \<Longrightarrow> resolve x s = s"
  by (simp add: resolve_def)

lemma settled_run_chain: "resolved s = Some r \<Longrightarrow> resolved (run_chain ts s) = Some r"
  by (induction ts s rule: run_chain.induct) (simp_all add: settled_resolve)

lemma settled_chain_then: "resolved s = Some r \<Longrightarrow> resolved (chain_then t s) = Some r"
  by (simp add: chain_then_def settled_run_chain)

lemma settled_emit: "resolved s = Some r \<Longrightarrow> resolved (emit i j s) = Some r"
  unfolding emit_def Let_def
  by (auto split: sum.splits option.splits intro!: settled_chain_then simp: resetTimeout_def)

lemma settled_on_stdout: "resolved s = Some r \<Longrightarrow> resolved (on_stdout i chunk s) = Some r"
proof -
  assume s: "resolved s = Some r"
  have loop: "resolved (scan_loop i u) = Some r" if "resolved u = Some r" for u
    using that by (intro scan_loop_inv [where P = "\<lambda>u. resolved u = Some r"]) (simp_all add: settled_emit)
  show ?thesis
    using s by (simp add: on_stdout_def Let_def loop)
qed

lemma settled_on_close: "resolved s = Some r \<Longrightarrow> resolved (on_close i code s) = Some r"
proof -
  assume s: "resolved s = Some r"
  have a: "resolved (s\<lparr>timeout := None, effects := effects s @ [File_write l]\<rparr>) = Some r" for l
    using s by simp
  show ?thesis
  proof (cases "timedOut s")
    case True
    then show ?thesis
      by (simp add: on_close_def Let_def settled_chain_then [OF a] settled_resolve [OF a] s)
  next
    case False
    then show ?thesis
      by (simp add: on_close_def Let_def settled_chain_then [OF a] settled_resolve [OF a] s
          split: sum.splits)
  qed
qed

lemma settled_handle: "resolved s = Some r \<Longrightarrow> resolved (handle i e s) = Some r"
proof (cases e)
  case (Stdout x)
  assume "resolved s = Some r"
  with Stdout show ?thesis by (simp add: settled_on_stdout)
next
  case (Stderr x)
  assume "resolved s = Some r"
  with Stderr show ?thesis by (simp add: on_stderr_def Let_def)
next
  case (Settled x)
  assume s: "resolved s = Some r"
  have "resolved (run_chain ts (s\<lparr>effects := effects s @ [Deliver_end e' Done]\<rparr>)) = Some r" for ts e'
    using s by (intro settled_run_chain) simp
  with s Settled show ?thesis
    by (simp add: callback_settled_def split: list.splits task.splits io.splits)
next
  case (Closed code)
  assume "resolved s = Some r"
  with Closed show ?thesis by (simp add: settled_on_close)
next
  case (Failed msg)
  assume "resolved s = Some r"
  with Failed show ?thesis by (simp add: on_error_def resolve_def)
next
  case Tick
  assume "resolved s = Some r"
  with Tick show ?thesis by simp
qed

lemma settled_advance: "resolved (advance dt s) = resolved s"
  by (simp add: advance_def Let_def killOnTimeout_def split: option.splits)

lemma settled_run: "resolved s = Some r \<Longrightarrow> resolved (run i tes s) = Some r"
  by (induction tes arbitrary: s) (simp_all add: step_def settled_handle settled_advance)

lemma stuck_emit: "stuck s \<Longrightarrow> stuck (emit i j s)"
  by (simp add: stuck_def emit_def Let_def resetTimeout_def chain_then_def
      split: sum.splits option.splits)

lemma stuck_on_stdout: "stuck s \<Longrightarrow> stuck (on_stdout i chunk s)"
proof -
  assume s: "stuck s"
  have upd: "stuck (u\<lparr>parseBuffer := b\<rparr>)" if "stuck u" for u b
    using that by (simp add: stuck_def)
  have loop: "stuck (scan_loop i u)" if "stuck u" for u
    using that by (intro scan_loop_inv [where P = stuck]) (simp_all add: stuck_emit upd)
  have "stuck (s\<lparr>stdout := a, stdoutTruncated := b, parseBuffer := c\<rparr>)"
    "stuck (s\<lparr>stdout := a, parseBuffer := c\<rparr>)" "stuck (s\<lparr>parseBuffer := c\<rparr>)"
    "stuck (s\<lparr>stdout := a, stdoutTruncated := b\<rparr>)" "stuck (s\<lparr>stdout := a\<rparr>)" for a b c
    using s by (simp_all add: stuck_def)
  then show ?thesis
    using s by (simp add: on_stdout_def Let_def loop)
qed

lemma stuck_on_close: "stuck s \<Longrightarrow> stuck (on_close i code s)"
  by (simp add: stuck_def on_close_def Let_def chain_then_def)

lemma stuck_handle: "unfailing e \<Longrightarrow> stuck s \<Longrightarrow> stuck (handle i e s)"
proof (cases e)
  case (Stdout x)
  assume "stuck s"
  with Stdout show ?thesis by (simp add: stuck_on_stdout)
next
  case (Stderr x)
  assume "stuck s"
  with Stderr show ?thesis by (simp add: on_stderr_def Let_def stuck_def)
next
  case (Settled r)
  assume "stuck s"
  with Settled show ?thesis by (simp add: callback_settled_def stuck_def)
next
  case (Closed code)
  assume "stuck s"
  with Closed show ?thesis by (simp add: stuck_on_close)
qed simp_all

lemma stuck_advance: "stuck s \<Longrightarrow> stuck (advance dt s)"
  by (simp add: stuck_def advance_def Let_def killOnTimeout_def split: option.splits)

lemma stuck_run: "list_all unfailing (map snd tes) \<Longrightarrow> stuck s \<Longrightarrow> stuck (run i tes s)"
  by (induction tes arbitrary: s) (simp_all add: step_def stuck_handle stuck_advance)


subsection \<open>The terminal result\<close>

text \<open>
  Claim C1, as stated, fails in two ways. A worker streams one event, the callback
  rejects on it, and the timer fires; the worker closes: the close handler chains the soft
  success on the rejected chain, so the promise is never settled, whatever is delivered
  later. And a worker streams one event, the timer fires, and the worker reports an error
  (the signal could not be delivered) before it closes: the error handler settles the
  promise with the spawn error, and the close handler's soft success comes too late.
\<close>

theorem timed_out_run_without_soft_success:
  "view_timer (run streaming [(10, Stdout (frame payload_one)), (5, Settled Throws), (100000, Tick),
        (5, Closed None), (5, Settled Done)] (spawn streaming sample_input))
     = (100025, None, True, True)
   \<and> framed (run streaming [(10, Stdout (frame payload_one)), (5, Settled Throws), (100000, Tick),
        (5, Closed None), (5, Settled Done)] (spawn streaming sample_input)) = [output_one]
   \<and> view_result (run streaming [(10, Stdout (frame payload_one)), (5, Settled Throws), (100000, Tick),
        (5, Closed None), (5, Settled Done)] (spawn streaming sample_input))
     = (None, [], True, [Deliver_begin output_one, Deliver_end output_one Throws])
   \<and> view_timer (run streaming [(10, Stdout (frame payload_one)), (100000, Tick),
        (1, Failed ''kill EPERM''), (5, Closed None), (1, Settled Done)] (spawn streaming sample_input))
     = (100017, None, True, True)
   \<and> framed (run streaming [(10, Stdout (frame payload_one)), (100000, Tick),
        (1, Failed ''kill EPERM''), (5, Closed None), (1, Settled Done)] (spawn streaming sample_input))
     = [output_one]
   \<and> resolved (run streaming [(10, Stdout (frame payload_one)), (100000, Tick),
        (1, Failed ''kill EPERM''), (5, Closed None), (1, Settled Done)] (spawn streaming sample_input))
     = Some \<lparr> status = Error, result = None, newSessionId = None,
              error = Some ''Agent spawn error: kill EPERM'', isPartial = None, streamType = None \<rparr>"
proof -
  define s where "s = run streaming [(10, Stdout (frame payload_one)), (5, Settled Throws),
        (100000, Tick), (5, Closed None), (5, Settled Done)] (spawn streaming sample_input)"
  define u where "u = run streaming [(10, Stdout (frame payload_one)), (100000, Tick),
        (1, Failed ''kill EPERM''), (5, Closed None), (1, Settled Done)] (spawn streaming sample_input)"
  have ts: "view_timer s = (100025, None, True, True)"
    unfolding s_def by (simp add: run_eval)
  have rs: "view_result s = (None, [], True, [Deliver_begin output_one, Deliver_end output_one Throws])"
    unfolding s_def by (simp add: run_eval)
  have fs: "framed s = [output_one]"
    unfolding s_def by (simp add: run_eval)
  have tu: "view_timer u = (100017, None, True, True)"
    unfolding u_def by (simp add: run_eval)
  have ru: "resolved u = Some \<lparr> status = Error, result = None, newSessionId = None,
              error = Some ''Agent spawn error: kill EPERM'', isPartial = None, streamType = None \<rparr>"
    unfolding u_def by (simp add: run_eval)
  have fu: "framed u = [output_one]"
    unfolding u_def by (simp add: run_eval)
  from ts rs fs tu ru fu show ?thesis
    unfolding s_def [symmetric] u_def [symmetric] by simp
qed

text \<open>
  Claim C1, amended. Take a run in which the worker has not closed before and in which
  the timer has fired, and let the worker close. If the promise is unsettled and no event
  was parsed, the close handler resolves it at once with the timeout error. If the
  promise is unsettled, an event was parsed and no delivery has rejected, the promise
  resolves, once the deliveries still in the chain have finished and not before, with
  status success, result null and the last session id. If a delivery has rejected, the
  promise stays unsettled as long as the worker reports no error. If the promise was
  settled before the close, by the error handler, it keeps that result.
\<close>

theorem timeout_result:
  assumes "list_all unclosed (map snd tes)" and "s = run i tes (spawn i inp)" and "timedOut s"
  shows "(resolved s = None \<and> framed s = [] \<longrightarrow>
            resolved (on_close i code s)
              = Some \<lparr> status = Error, result = None, newSessionId = None,
                       error = Some (''Agent timed out after '' @ show_nat (configTimeout i) @ ''ms''),
                       isPartial = None, streamType = None \<rparr>)
       \<and> (resolved s = None \<and> framed s \<noteq> [] \<and> \<not> chain_rejected s \<longrightarrow>
            resolved (run i (replicate (length (outputChain s)) (dt, Settled Done)) (on_close i code s))
              = Some \<lparr> status = Success, result = None, newSessionId = newSessionId_var s,
                       error = None, isPartial = None, streamType = None \<rparr>
          \<and> (\<forall>j < length (outputChain s).
                resolved (run i (replicate j (dt, Settled Done)) (on_close i code s)) = None))
       \<and> (resolved s = None \<and> framed s \<noteq> [] \<and> chain_rejected s
            \<and> list_all unfailing (map snd later) \<longrightarrow>
            resolved (run i later (on_close i code s)) = None)
       \<and> (resolved s = Some r \<longrightarrow> resolved (run i later (on_close i code s)) = Some r)"
proof -
  have sh: "shape s"
    unfolding assms(2) by (rule shape_run [OF assms(1) shape_spawn])
  have tr: "orderly s \<or> broken s"
    unfolding assms(2) by (rule trail_spawn)
  have hard: "resolved (on_close i code s)
        = Some (error_output (''Agent timed out after '' @ show_nat (configTimeout i) @ ''ms''))"
    if "resolved s = None" "framed s = []"
  proof -
    from that sh have "\<not> hadStreamingOutput s" by (simp add: shape_def)
    with assms(3) that(1) show ?thesis
      by (simp add: on_close_def Let_def resolve_def)
  qed
  have soft: "resolved (run i (replicate (length (outputChain s)) (dt, Settled Done)) (on_close i code s))
        = Some (soft_success s)
      \<and> (\<forall>j < length (outputChain s).
            resolved (run i (replicate j (dt, Settled Done)) (on_close i code s)) = None)"
    if "resolved s = None" "framed s \<noteq> []" "\<not> chain_rejected s"
  proof -
    from that sh have q: "quiet s" and h: "hadStreamingOutput s"
      by (simp_all add: quiet_def shape_def)
    from tr that(3) have o: "orderly s"
      by (auto dest: broken_rejected)
    from assms(3) h show ?thesis
      using close_then_drain [OF q o, of code i dt] by simp
  qed
  have none: "resolved (run i later (on_close i code s)) = None"
    if "resolved s = None" "framed s \<noteq> []" "chain_rejected s" "list_all unfailing (map snd later)"
  proof -
    from tr that(3) have "broken s"
      by (auto dest: orderly_not_rejected)
    then have "outputChain s = []" by (simp add: broken_def)
    moreover from that sh have "hadStreamingOutput s" by (simp add: shape_def)
    ultimately have "stuck s"
      using that assms(3) by (simp add: stuck_def)
    then have "stuck (on_close i code s)" by (rule stuck_on_close)
    then have "stuck (run i later (on_close i code s))" by (rule stuck_run [OF that(4)])
    then show ?thesis by (simp add: stuck_def)
  qed
  have kept: "resolved (run i later (on_close i code s)) = Some r" if "resolved s = Some r"
    using that by (intro settled_run settled_on_close)
  show ?thesis
  proof (intro conjI impI)
    assume a: "resolved s = None \<and> framed s = []"
    with hard show "resolved (on_close i code s)
              = Some \<lparr> status = Error, result = None, newSessionId = None,
                       error = Some (''Agent timed out after '' @ show_nat (configTimeout i) @ ''ms''),
                       isPartial = None, streamType = None \<rparr>"
      by (simp add: error_output_def)
  next
    assume a: "resolved s = None \<and> framed s \<noteq> [] \<and> \<not> chain_rejected s"
    with soft show "resolved (run i (replicate (length (outputChain s)) (dt, Settled Done)) (on_close i code s))
              = Some \<lparr> status = Success, result = None, newSessionId = newSessionId_var s,
                       error = None, isPartial = None, streamType = None \<rparr>"
      by (simp add: soft_success_def)
  next
    assume a: "resolved s = None \<and> framed s \<noteq> [] \<and> \<not> chain_rejected s"
    with soft show "\<forall>j < length (outputChain s).
                resolved (run i (replicate j (dt, Settled Done)) (on_close i code s)) = None"
      by simp
  next
    assume a: "resolved s = None \<and> framed s \<noteq> [] \<and> chain_rejected s
            \<and> list_all unfailing (map snd later)"
    with none show "resolved (run i later (on_close i code s)) = None"
      by simp
  next
    assume "resolved s = Some r"
    then show "resolved (run i later (on_close i code s)) = Some r"
      by (rule kept)
  qed
qed

theorem timeout_result_witness:
  "list_all unclosed (map snd [(10, Stdout (frame payload_two)), (100000, Tick)])
   \<and> view_timer (run streaming [(10, Stdout (frame payload_two)), (100000, Tick)]
        (spawn streaming sample_input)) = (100010, None, True, True)
   \<and> view_result (run streaming [(10, Stdout (frame payload_two)), (100000, Tick)]
        (spawn streaming sample_input))
       = (None, [Deliver output_two], False, [Deliver_begin output_two])
   \<and> framed (run streaming [(10, Stdout (frame payload_two)), (100000, Tick)]
        (spawn streaming sample_input)) = [output_two]
   \<and> resolved (on_close streaming None
        (run streaming [(10, Stdout (frame payload_two)), (100000, Tick)]
           (spawn streaming sample_input))) = None
   \<and> resolved (run streaming [(3, Settled Done)]
        (on_close streaming None
          (run streaming [(10, Stdout (frame payload_two)), (100000, Tick)]
             (spawn streaming sample_input))))
       = Some \<lparr> status = Success, result = None, newSessionId = Some ''s2'',
                error = None, isPartial = None, streamType = None \<rparr>
   \<and> list_all unclosed (map snd [(100000, Tick)])
   \<and> view_timer (run streaming [(100000, Tick)] (spawn streaming sample_input))
       = (100000, None, True, True)
   \<and> view_result (run streaming [(100000, Tick)] (spawn streaming sample_input))
       = (None, [], False, [])
   \<and> framed (run streaming [(100000, Tick)] (spawn streaming sample_input)) = []
   \<and> resolved (on_close streaming None (run streaming [(100000, Tick)] (spawn streaming sample_input)))
       = Some \<lparr> status = Error, result = None, newSessionId = None,
                error = Some ''Agent timed out after 100000ms'',
                isPartial = None, streamType = None \<rparr>
   \<and> list_all unclosed (map snd [(10, Stdout (frame payload_one)), (5, Settled Throws), (100000, Tick)])
   \<and> list_all unfailing (map snd [(5, Settled Done), (5, Stdout (frame payload_two))])
   \<and> view_timer (run streaming [(10, Stdout (frame payload_one)), (5, Settled Throws), (100000, Tick)]
        (spawn streaming sample_input)) = (100015, None, True, True)
   \<and> view_result (run streaming [(10, Stdout (frame payload_one)), (5, Settled Throws), (100000, Tick)]
        (spawn streaming sample_input))
       = (None, [], True, [Deliver_begin output_one, Deliver_end output_one Throws])
   \<and> resolved (run streaming [(5, Settled Done), (5, Stdout (frame payload_two))]
        (on_close streaming None
          (run streaming [(10, Stdout (frame payload_one)), (5, Settled Throws), (100000, Tick)]
             (spawn streaming sample_input)))) = None
   \<and> list_all unclosed (map snd [(10, Stdout (frame payload_one)), (100000, Tick),
        (1, Failed ''kill EPERM'')])
   \<and> view_timer (run streaming [(10, Stdout (frame payload_one)), (100000, Tick),
        (1, Failed ''kill EPERM'')] (spawn streaming sample_input)) = (100011, None, True, True)
   \<and> resolved (run streaming [(1, Settled Done)]
        (on_close streaming None
          (run streaming [(10, Stdout (frame payload_one)), (100000, Tick), (1, Failed ''kill EPERM'')]
             (spawn streaming sample_input))))
       = Some \<lparr> status = Error, result = None, newSessionId = None,
                error = Some ''Agent spawn error: kill EPERM'', isPartial = None,
                streamType = None \<rparr>"
proof -
  define b where "b = run streaming [(10, Stdout (frame payload_one)), (5, Settled Throws),
        (100000, Tick)] (spawn streaming sample_input)"
  define f where "f = run streaming [(10, Stdout (frame payload_one)), (100000, Tick),
        (1, Failed ''kill EPERM'')] (spawn streaming sample_input)"
  have hb: "list_all unclosed (map snd [(10, Stdout (frame payload_one)), (5, Settled Throws),
        (100000, Tick)])"
    and hl: "list_all unfailing (map snd [(5, Settled Done), (5, Stdout (frame payload_two))])"
    and hf: "list_all unclosed (map snd [(10, Stdout (frame payload_one)), (100000, Tick),
        (1, Failed ''kill EPERM'')])"
    by simp_all
  have tb: "view_timer b = (100015, None, True, True)"
    unfolding b_def by (simp add: run_eval)
  have rb: "view_result b = (None, [], True, [Deliver_begin output_one, Deliver_end output_one Throws])"
    unfolding b_def by (simp add: run_eval)
  have cb: "view_capture b = (frame payload_one, False, [output_one])"
    unfolding b_def by (simp add: run_eval)
  have tf: "view_timer f = (100011, None, True, True)"
    unfolding f_def by (simp add: run_eval)
  have rf: "resolved f = Some \<lparr> status = Error, result = None, newSessionId = None,
                error = Some ''Agent spawn error: kill EPERM'', isPartial = None,
                streamType = None \<rparr>"
    unfolding f_def by (simp add: run_eval)
  from tb have "timedOut b" by (simp add: view_timer_def)
  from timeout_result [OF hb b_def this, where code = None
      and later = "[(5, Settled Done), (5, Stdout (frame payload_two))]"]
    rb cb hl
  have never: "resolved (run streaming [(5, Settled Done), (5, Stdout (frame payload_two))]
      (on_close streaming None b)) = None"
    by (simp add: view_result_def view_capture_def)
  from tf have "timedOut f" by (simp add: view_timer_def)
  from timeout_result [OF hf f_def this, where code = None and later = "[(1, Settled Done)]"] rf
  have first: "resolved (run streaming [(1, Settled Done)] (on_close streaming None f))
       = Some \<lparr> status = Error, result = None, newSessionId = None,
                error = Some ''Agent spawn error: kill EPERM'', isPartial = None,
                streamType = None \<rparr>"
    by simp
  define s where "s = run streaming [(10, Stdout (frame payload_two)), (100000, Tick)]
        (spawn streaming sample_input)"
  define u where "u = run streaming [(100000, Tick)] (spawn streaming sample_input)"
  have hs: "list_all unclosed (map snd [(10, Stdout (frame payload_two)), (100000, Tick)])"
    and hu: "list_all unclosed (map snd [(100000, Tick)])"
    by simp_all
  have ts: "view_timer s = (100010, None, True, True)"
    unfolding s_def by (simp add: run_eval)
  have rs: "view_result s = (None, [Deliver output_two], False, [Deliver_begin output_two])"
    unfolding s_def by (simp add: run_eval)
  have cs: "view_capture s = (frame payload_two, False, [output_two])"
    unfolding s_def by (simp add: run_eval)
  have ns: "newSessionId_var s = Some ''s2''"
    unfolding s_def by (simp add: run_eval)
  have tu: "view_timer u = (100000, None, True, True)"
    unfolding u_def by (simp add: run_eval)
  have ru: "view_result u = (None, [], False, [])"
    unfolding u_def by (simp add: run_eval)
  have cu: "view_capture u = ([], False, [])"
    unfolding u_def by (simp add: run_eval)
  have ct: "show_nat (configTimeout streaming) = ''100000''"
    by (simp add: run_eval)
  from ts have "timedOut s" by (simp add: view_timer_def)
  from timeout_result [OF hs s_def this, of None 3] rs cs ns
  have soft: "resolved (run streaming [(3, Settled Done)] (on_close streaming None s))
       = Some \<lparr> status = Success, result = None, newSessionId = Some ''s2'',
                error = None, isPartial = None, streamType = None \<rparr>
     \<and> resolved (on_close streaming None s) = None"
    by (simp add: view_result_def view_capture_def)
  from tu have "timedOut u" by (simp add: view_timer_def)
  from timeout_result [OF hu u_def this, of None] ru cu ct
  have hard: "resolved (on_close streaming None u)
       = Some \<lparr> status = Error, result = None, newSessionId = None,
                error = Some ''Agent timed out after 100000ms'',
                isPartial = None, streamType = None \<rparr>"
    by (simp add: view_result_def view_capture_def)
  from hs hu ts rs cs tu ru cu soft hard hb hl hf tb rb tf never first show ?thesis
    unfolding s_def [symmetric] u_def [symmetric] b_def [symmetric] f_def [symmetric]
    by (simp add: view_capture_def)
qed


text \<open>
  Claim C4, as stated, fails in three ways. A worker streams one event and exits with
  code 1 while the event is being delivered: the promise resolves with the error at
  once, with the delivery begun and not finished. A worker streams two events and
  the callback rejects on the first: the second event is never delivered, whatever
  happens later, and the promise never resolves. And a worker streams one event, is
  timed out, and reports an error while the event is being delivered: the promise
  resolves with the spawn error at once.
\<close>

theorem delivery_not_awaited_or_dropped:
  "view_result (run streaming [(10, Stdout (frame payload_one)), (5, Closed (Some 1))]
      (spawn streaming sample_input))
     = (Some \<lparr> status = Error, result = None, newSessionId = None,
               error = Some ''Agent exited with code 1: '', isPartial = None, streamType = None \<rparr>,
        [Deliver output_one], False, [Deliver_begin output_one])
   \<and> framed (run streaming [(10, Stdout (frame payload_one @ frame payload_two)),
        (5, Settled Throws), (5, Closed (Some 0)), (5, Settled Done)] (spawn streaming sample_input))
     = [output_one, output_two]
   \<and> view_result (run streaming [(10, Stdout (frame payload_one @ frame payload_two)),
        (5, Settled Throws), (5, Closed (Some 0)), (5, Settled Done)] (spawn streaming sample_input))
     = (None, [], True, [Deliver_begin output_one, Deliver_end output_one Throws])
   \<and> view_result (run streaming [(10, Stdout (frame payload_one)), (100000, Tick),
        (1, Failed ''kill EPERM'')] (spawn streaming sample_input))
     = (Some \<lparr> status = Error, result = None, newSessionId = None,
               error = Some ''Agent spawn error: kill EPERM'', isPartial = None, streamType = None \<rparr>,
        [Deliver output_one], False, [Deliver_begin output_one])"
  by (simp add: run_eval)

text \<open>
  Claim C4, amended. In every run: as long as no delivery has rejected, the events parsed
  so far are, in the order they were framed, those whose delivery has begun and finished,
  one after the other, then those the chain still holds, of which only the first has
  begun; once a delivery has rejected, the deliveries are those that finished, one after
  the other, then the one that rejected, and the events parsed after it were not
  delivered. So each event is delivered at most once, in order, and no delivery begins
  before the previous one has finished. If moreover the worker has not closed before, the
  promise is unsettled and no delivery has rejected, and the worker now closes with code
  0, or closes after the timer fired and an event was parsed, then once the deliveries in
  the chain have finished every event has been delivered exactly once, the promise is
  resolved with the soft success, its resolution is the last thing that happened, and it
  was unresolved until the last delivery finished.
\<close>

theorem deliveries_in_order:
  assumes "s = run i tes (spawn i inp)"
  shows "(\<not> chain_rejected s \<longrightarrow>
            (\<exists>finished. framed s = finished @ delivers (outputChain s)
               \<and> deliveries (effects s) = one_by_one finished @ in_flight (outputChain s)))
       \<and> (chain_rejected s \<longrightarrow>
            (\<exists>finished e rest. framed s = finished @ e # rest
               \<and> deliveries (effects s)
                   = one_by_one finished @ [Deliver_begin e, Deliver_end e Throws]))
       \<and> (list_all unclosed (map snd tes) \<and> resolved s = None \<and> \<not> chain_rejected s
            \<and> ((timedOut s \<and> framed s \<noteq> []) \<or> (\<not> timedOut s \<and> code = Some 0 \<and> i_onOutput i)) \<longrightarrow>
            resolved (run i (replicate (length (outputChain s)) (dt, Settled Done)) (on_close i code s))
              = Some (soft_success s)
          \<and> deliveries (effects (run i (replicate (length (outputChain s)) (dt, Settled Done))
               (on_close i code s))) = one_by_one (framed s)
          \<and> (\<exists>pre. effects (run i (replicate (length (outputChain s)) (dt, Settled Done))
               (on_close i code s)) = pre @ [Resolve (soft_success s)])
          \<and> (\<forall>j < length (outputChain s).
                resolved (run i (replicate j (dt, Settled Done)) (on_close i code s)) = None))"
proof -
  have tr: "orderly s \<or> broken s"
    unfolding assms by (rule trail_spawn)
  have first: "\<exists>finished. framed s = finished @ delivers (outputChain s)
            \<and> deliveries (effects s) = one_by_one finished @ in_flight (outputChain s)"
    if "\<not> chain_rejected s"
  proof -
    from tr that have "orderly s" by (auto dest: broken_rejected)
    then show ?thesis by (auto simp: orderly_def orderly_with_def)
  qed
  have second: "\<exists>finished e rest. framed s = finished @ e # rest
               \<and> deliveries (effects s)
                   = one_by_one finished @ [Deliver_begin e, Deliver_end e Throws]"
    if "chain_rejected s"
  proof -
    from tr that have "broken s" by (auto dest: orderly_not_rejected)
    then show ?thesis by (simp add: broken_def)
  qed
  have third: "resolved (run i (replicate (length (outputChain s)) (dt, Settled Done)) (on_close i code s))
              = Some (soft_success s)
          \<and> deliveries (effects (run i (replicate (length (outputChain s)) (dt, Settled Done))
               (on_close i code s))) = one_by_one (framed s)
          \<and> (\<exists>pre. effects (run i (replicate (length (outputChain s)) (dt, Settled Done))
               (on_close i code s)) = pre @ [Resolve (soft_success s)])
          \<and> (\<forall>j < length (outputChain s).
                resolved (run i (replicate j (dt, Settled Done)) (on_close i code s)) = None)"
    if l: "list_all unclosed (map snd tes)" and r: "resolved s = None" and n: "\<not> chain_rejected s"
      and p: "(timedOut s \<and> framed s \<noteq> []) \<or> (\<not> timedOut s \<and> code = Some 0 \<and> i_onOutput i)"
  proof -
    have sh: "shape s"
      unfolding assms by (rule shape_run [OF l shape_spawn])
    with r have q: "quiet s" by (simp add: quiet_def shape_def)
    from tr n have o: "orderly s" by (auto dest: broken_rejected)
    from p sh have "(timedOut s \<and> hadStreamingOutput s) \<or> (\<not> timedOut s \<and> code = Some 0 \<and> i_onOutput i)"
      by (simp add: shape_def)
    then show ?thesis by (rule close_then_drain [OF q o])
  qed
  show ?thesis
  proof (intro conjI)
    show "\<not> chain_rejected s \<longrightarrow>
            (\<exists>finished. framed s = finished @ delivers (outputChain s)
               \<and> deliveries (effects s) = one_by_one finished @ in_flight (outputChain s))"
      using first by (rule impI)
    show "chain_rejected s \<longrightarrow>
            (\<exists>finished e rest. framed s = finished @ e # rest
               \<and> deliveries (effects s)
                   = one_by_one finished @ [Deliver_begin e, Deliver_end e Throws])"
      using second by (rule impI)
    show "list_all unclosed (map snd tes) \<and> resolved s = None \<and> \<not> chain_rejected s
            \<and> ((timedOut s \<and> framed s \<noteq> []) \<or> (\<not> timedOut s \<and> code = Some 0 \<and> i_onOutput i)) \<longrightarrow>
            resolved (run i (replicate (length (outputChain s)) (dt, Settled Done)) (on_close i code s))
              = Some (soft_success s)
          \<and> deliveries (effects (run i (replicate (length (outputChain s)) (dt, Settled Done))
               (on_close i code s))) = one_by_one (framed s)
          \<and> (\<exists>pre. effects (run i (replicate (length (outputChain s)) (dt, Settled Done))
               (on_close i code s)) = pre @ [Resolve (soft_success s)])
          \<and> (\<forall>j < length (outputChain s).
                resolved (run i (replicate j (dt, Settled Done)) (on_close i code s)) = None)"
    proof (rule impI, elim conjE)
      assume "list_all unclosed (map snd tes)" and "resolved s = None" and "\<not> chain_rejected s"
        and "(timedOut s \<and> framed s \<noteq> []) \<or> (\<not> timedOut s \<and> code = Some 0 \<and> i_onOutput i)"
      then show "resolved (run i (replicate (length (outputChain s)) (dt, Settled Done)) (on_close i code s))
              = Some (soft_success s)
          \<and> deliveries (effects (run i (replicate (length (outputChain s)) (dt, Settled Done))
               (on_close i code s))) = one_by_one (framed s)
          \<and> (\<exists>pre. effects (run i (replicate (length (outputChain s)) (dt, Settled Done))
               (on_close i code s)) = pre @ [Resolve (soft_success s)])
          \<and> (\<forall>j < length (outputChain s).
                resolved (run i (replicate j (dt, Settled Done)) (on_close i code s)) = None)"
        by (rule third)
    qed
  qed
qed

theorem deliveries_in_order_witness:
  "list_all unclosed (map snd [(10, Stdout (frame payload_one @ frame payload_two))])
   \<and> view_result (run streaming [(10, Stdout (frame payload_one @ frame payload_two))]
        (spawn streaming sample_input))
      = (None, [Deliver output_one, Deliver output_two], False, [Deliver_begin output_one])
   \<and> view_result (run streaming [(3, Settled Done), (3, Settled Done)] (on_close streaming (Some 0)
        (run streaming [(10, Stdout (frame payload_one @ frame payload_two))]
           (spawn streaming sample_input))))
      = (Some \<lparr> status = Success, result = None, newSessionId = Some ''s2'',
                error = None, isPartial = None, streamType = None \<rparr>, [], False,
         [Deliver_begin output_one, Deliver_end output_one Done,
          Deliver_begin output_two, Deliver_end output_two Done])
   \<and> resolved (run streaming [(3, Settled Done)] (on_close streaming (Some 0)
        (run streaming [(10, Stdout (frame payload_one @ frame payload_two))]
           (spawn streaming sample_input)))) = None
   \<and> framed (run streaming [(10, Stdout (frame payload_one @ frame payload_two)), (5, Settled Throws)]
        (spawn streaming sample_input)) = [] @ output_one # [output_two]
   \<and> view_result (run streaming [(10, Stdout (frame payload_one @ frame payload_two)), (5, Settled Throws)]
        (spawn streaming sample_input))
      = (None, [], True, one_by_one [] @ [Deliver_begin output_one, Deliver_end output_one Throws])"
proof -
  define s where "s = run streaming [(10, Stdout (frame payload_one @ frame payload_two))]
        (spawn streaming sample_input)"
  define s' where "s' = run streaming [(3, Settled Done), (3, Settled Done)] (on_close streaming (Some 0) s)"
  define b where "b = run streaming [(10, Stdout (frame payload_one @ frame payload_two)),
        (5, Settled Throws)] (spawn streaming sample_input)"
  have hyp: "list_all unclosed (map snd [(10, Stdout (frame payload_one @ frame payload_two))])"
    by simp
  have t: "view_timer s = (10, Some 100010, False, False)"
    unfolding s_def by (simp add: run_eval)
  have r: "view_result s = (None, [Deliver output_one, Deliver output_two], False, [Deliver_begin output_one])"
    unfolding s_def by (simp add: run_eval)
  have n: "newSessionId_var s = Some ''s2'' \<and> framed s = [output_one, output_two]"
    unfolding s_def by (simp add: run_eval)
  have rest: "outputChain s' = [] \<and> \<not> chain_rejected s'"
    unfolding s'_def s_def by (simp add: run_eval)
  have rb: "view_result b = (None, [], True, [Deliver_begin output_one, Deliver_end output_one Throws])"
    unfolding b_def by (simp add: run_eval)
  have fb: "framed b = [output_one, output_two]"
    unfolding b_def by (simp add: run_eval)
  have len: "replicate (length (outputChain s)) (3::nat, Settled Done) = [(3, Settled Done), (3, Settled Done)]"
    using r by (simp add: view_result_def)
  have on: "i_onOutput streaming"
    by (simp add: streaming_def)
  from t have nt: "\<not> timedOut s" by (simp add: view_timer_def)
  from r have un: "resolved s = None" "\<not> chain_rejected s" "length (outputChain s) = 2"
    by (simp_all add: view_result_def)
  have th: "resolved s' = Some (soft_success s) \<and> deliveries (effects s') = one_by_one (framed s)
      \<and> (\<forall>j < length (outputChain s).
            resolved (run streaming (replicate j (3, Settled Done)) (on_close streaming (Some 0) s)) = None)"
    using deliveries_in_order [OF s_def, of "Some 0" 3] hyp nt on un(1,2)
    unfolding len s'_def by blast
  with un(3) have "\<forall>j < 2. resolved (run streaming (replicate j (3, Settled Done))
      (on_close streaming (Some 0) s)) = None"
    by simp
  moreover have "Suc 0 < 2" by simp
  ultimately have "resolved (run streaming (replicate (Suc 0) (3, Settled Done))
      (on_close streaming (Some 0) s)) = None"
    by blast
  then have mid: "resolved (run streaming [(3, Settled Done)] (on_close streaming (Some 0) s)) = None"
    by simp
  from th rest n have "view_result s' = (Some \<lparr> status = Success, result = None, newSessionId = Some ''s2'',
                error = None, isPartial = None, streamType = None \<rparr>, [], False,
         [Deliver_begin output_one, Deliver_end output_one Done,
          Deliver_begin output_two, Deliver_end output_two Done])"
    by (simp add: view_result_def soft_success_def)
  with hyp r mid rb fb show ?thesis
    unfolding s'_def s_def b_def by simp
qed


subsection \<open>Captured output and parsing\<close>

lemma indexOf_aux_bound:
  "indexOf_aux m xs k = Some j \<Longrightarrow> k \<le> j \<and> j + length m \<le> k + length xs"
proof (induction xs arbitrary: k)
  case Nil
  then show ?case by (simp split: if_splits)
next
  case (Cons c cs)
  show ?case
  proof (cases "take (length m) (c # cs) = m")
    case True
    then have "length m \<le> length (c # cs)"
      by (metis length_take min.absorb_iff2 min.commute)
    with True Cons.prems show ?thesis by simp
  next
    case False
    with Cons.prems have "indexOf_aux m cs (Suc k) = Some j" by simp
    then have "Suc k \<le> j \<and> j + length m \<le> Suc k + length cs" by (rule Cons.IH)
    then show ?thesis by simp
  qed
qed

lemma take_append_short: "n \<le> length xs \<Longrightarrow> take n (xs @ ys) = take n xs"
  by simp

lemma indexOf_aux_append:
  "indexOf_aux m xs k = Some j \<Longrightarrow> indexOf_aux m (xs @ ys) k = Some j"
proof (induction xs arbitrary: k)
  case Nil
  then have "m = []" "j = k" by (simp_all split: if_splits)
  then show ?case by (cases ys) simp_all
next
  case (Cons c cs)
  show ?case
  proof (cases "take (length m) (c # cs) = m")
    case True
    then have "length m \<le> length (c # cs)"
      by (metis length_take min.absorb_iff2 min.commute)
    then have "take (length m) ((c # cs) @ ys) = take (length m) (c # cs)"
      by (rule take_append_short)
    with True have "take (length m) (c # cs @ ys) = m" by simp
    with Cons.prems True show ?thesis by simp
  next
    case False
    with Cons.prems have rest: "indexOf_aux m cs (Suc k) = Some j" by simp
    from indexOf_aux_bound [OF rest] have "length m \<le> length (c # cs)" by simp
    then have "take (length m) ((c # cs) @ ys) = take (length m) (c # cs)"
      by (rule take_append_short)
    with False have "take (length m) (c # cs @ ys) \<noteq> m" by simp
    with Cons.IH [OF rest] show ?thesis by simp
  qed
qed

lemma indexOf_from_bound:
  "indexOf_from m a x = Some b \<Longrightarrow> min a (length x) \<le> b \<and> b + length m \<le> length x"
  using indexOf_aux_bound [of m "drop (min a (length x)) x" "min a (length x)" b]
  by (simp add: indexOf_from_def)

lemma indexOf_from_append:
  assumes "indexOf_from m a x = Some b" and "a \<le> length x"
  shows "indexOf_from m a (x @ y) = Some b"
proof -
  from assms have "indexOf_aux m (drop a x) a = Some b"
    by (simp add: indexOf_from_def min_def)
  then have "indexOf_aux m (drop a x @ y) a = Some b"
    by (rule indexOf_aux_append)
  with assms(2) show ?thesis
    by (simp add: indexOf_from_def min_def)
qed

lemma indexOf_append: "indexOf m x = Some a \<Longrightarrow> indexOf m (x @ y) = Some a"
  by (simp add: indexOf_def indexOf_from_append)

lemma scan_append:
  "scan (x @ y) = (fst (scan x) @ fst (scan (snd (scan x) @ y)), snd (scan (snd (scan x) @ y)))"
proof (induction x rule: scan.induct)
  case (1 buf)
  show ?case
  proof (cases "indexOf OUTPUT_START_MARKER buf")
    case None
    then have "scan buf = ([], buf)" by (subst scan.simps) simp
    then show ?thesis by simp
  next
    case (Some a)
    show ?thesis
    proof (cases "indexOf_from OUTPUT_END_MARKER a buf")
      case None
      with Some have "scan buf = ([], buf)" by (subst scan.simps) simp
      then show ?thesis by simp
    next
      case b: (Some b)
      define rest where "rest = slice_from (b + length OUTPUT_END_MARKER) buf"
      define j where "j = trim (slice (a + length OUTPUT_START_MARKER) b buf)"
      have sb: "scan buf = (j # fst (scan rest), snd (scan rest))"
        using Some b by (subst scan.simps) (simp add: Let_def rest_def j_def)
      from Some have a_le: "a \<le> length buf"
        using indexOf_from_bound [of OUTPUT_START_MARKER 0 buf a] by (simp add: indexOf_def)
      from indexOf_from_bound [OF b] have b_le: "b + length OUTPUT_END_MARKER \<le> length buf"
        by simp
      have s1: "indexOf OUTPUT_START_MARKER (buf @ y) = Some a"
        using Some by (rule indexOf_append)
      have s2: "indexOf_from OUTPUT_END_MARKER a (buf @ y) = Some b"
        using b a_le by (rule indexOf_from_append)
      have s3: "slice (a + length OUTPUT_START_MARKER) b (buf @ y)
              = slice (a + length OUTPUT_START_MARKER) b buf"
        using b_le by (simp add: slice_def)
      have s4: "slice_from (b + length OUTPUT_END_MARKER) (buf @ y) = rest @ y"
        using b_le by (simp add: slice_from_def rest_def)
      have "scan (buf @ y) = (j # fst (scan (rest @ y)), snd (scan (rest @ y)))"
        using s1 s2 by (subst scan.simps) (simp add: Let_def s3 s4 j_def)
      moreover have "scan (rest @ y)
          = (fst (scan rest) @ fst (scan (snd (scan rest) @ y)), snd (scan (snd (scan rest) @ y)))"
        unfolding rest_def by (rule "1.IH" [OF Some b])
      ultimately show ?thesis by (simp add: sb)
    qed
  qed
qed

lemma parsed_append: "parsed i (xs @ ys) = parsed i xs @ parsed i ys"
  by (induction xs) (simp_all split: sum.splits)

lemma capture_run_chain [simp]:
  "framed (run_chain ts s) = framed s \<and> parseBuffer (run_chain ts s) = parseBuffer s
   \<and> stdout (run_chain ts s) = stdout s \<and> stdoutTruncated (run_chain ts s) = stdoutTruncated s
   \<and> stderr (run_chain ts s) = stderr s \<and> stderrTruncated (run_chain ts s) = stderrTruncated s"
  by (induction ts s rule: run_chain.induct) (simp_all add: resolve_def split: option.splits)

lemma capture_chain_then [simp]:
  "framed (chain_then t s) = framed s" "parseBuffer (chain_then t s) = parseBuffer s"
  "stdout (chain_then t s) = stdout s" "stdoutTruncated (chain_then t s) = stdoutTruncated s"
  "stderr (chain_then t s) = stderr s" "stderrTruncated (chain_then t s) = stderrTruncated s"
  by (simp_all add: chain_then_def)

lemma capture_emit:
  "framed (emit i j s) = framed s @ parsed i [j] \<and> parseBuffer (emit i j s) = parseBuffer s
   \<and> stdout (emit i j s) = stdout s \<and> stdoutTruncated (emit i j s) = stdoutTruncated s
   \<and> stderr (emit i j s) = stderr s \<and> stderrTruncated (emit i j s) = stderrTruncated s"
  by (simp add: emit_def Let_def resetTimeout_def split: sum.splits option.splits)

lemma scan_loop_scan:
  "framed (scan_loop i s) = framed s @ parsed i (fst (scan (parseBuffer s)))
   \<and> parseBuffer (scan_loop i s) = snd (scan (parseBuffer s))
   \<and> stdout (scan_loop i s) = stdout s \<and> stdoutTruncated (scan_loop i s) = stdoutTruncated s
   \<and> stderr (scan_loop i s) = stderr s \<and> stderrTruncated (scan_loop i s) = stderrTruncated s"
proof (induction i s rule: scan_loop.induct)
  case (1 i s)
  show ?case
  proof (cases "indexOf OUTPUT_START_MARKER (parseBuffer s)")
    case None
    then have "scan_loop i s = s"
      by (subst scan_loop.simps) simp
    moreover from None have "scan (parseBuffer s) = ([], parseBuffer s)"
      by (subst scan.simps) simp
    ultimately show ?thesis by simp
  next
    case (Some a)
    show ?thesis
    proof (cases "indexOf_from OUTPUT_END_MARKER a (parseBuffer s)")
      case None
      with Some have "scan_loop i s = s"
        by (subst scan_loop.simps) simp
      moreover from None Some have "scan (parseBuffer s) = ([], parseBuffer s)"
        by (subst scan.simps) simp
      ultimately show ?thesis by simp
    next
      case b: (Some b)
      define rest where "rest = slice_from (b + length OUTPUT_END_MARKER) (parseBuffer s)"
      define j where "j = trim (slice (a + length OUTPUT_START_MARKER) b (parseBuffer s))"
      define u where "u = emit i j (s\<lparr>parseBuffer := rest\<rparr>)"
      have l: "scan_loop i s = scan_loop i u"
        using Some b by (subst scan_loop.simps) (simp add: Let_def rest_def j_def u_def)
      have sb: "scan (parseBuffer s) = (j # fst (scan rest), snd (scan rest))"
        using Some b by (subst scan.simps) (simp add: Let_def rest_def j_def)
      have ih: "framed (scan_loop i u) = framed u @ parsed i (fst (scan (parseBuffer u)))
         \<and> parseBuffer (scan_loop i u) = snd (scan (parseBuffer u))
         \<and> stdout (scan_loop i u) = stdout u \<and> stdoutTruncated (scan_loop i u) = stdoutTruncated u
         \<and> stderr (scan_loop i u) = stderr u \<and> stderrTruncated (scan_loop i u) = stderrTruncated u"
        unfolding u_def j_def rest_def by (rule "1.IH" [OF Some b refl])
      have u: "framed u = framed s @ parsed i [j]" "parseBuffer u = rest" "stdout u = stdout s"
        "stdoutTruncated u = stdoutTruncated s" "stderr u = stderr s"
        "stderrTruncated u = stderrTruncated s"
        by (simp_all add: u_def capture_emit)
      from ih show ?thesis
        unfolding l u sb by (simp split: sum.splits)
    qed
  qed
qed
lemma received_append: "received (xs @ ys) = received xs @ received ys"
  by (induction xs rule: received.induct) simp_all

lemma received_err_append: "received_err (xs @ ys) = received_err xs @ received_err ys"
  by (induction xs rule: received_err.induct) simp_all

lemma capture_resolve [simp]:
  "parseBuffer (resolve r s) = parseBuffer s" "stdout (resolve r s) = stdout s"
  "stdoutTruncated (resolve r s) = stdoutTruncated s" "stderr (resolve r s) = stderr s"
  "stderrTruncated (resolve r s) = stderrTruncated s"
  by (simp_all add: resolve_def split: option.splits)

lemma same_capture_advance: "same_capture (advance dt s) s"
  by (simp add: same_capture_def advance_def Let_def killOnTimeout_def split: option.splits)

lemma same_capture_settled: "same_capture (callback_settled r s) s"
  by (simp add: same_capture_def callback_settled_def split: list.splits task.splits io.splits)

lemma same_capture_on_error: "same_capture (on_error msg s) s"
  by (simp add: same_capture_def on_error_def)

lemma same_capture_on_close: "same_capture (on_close i code s) s"
proof (cases "timedOut s")
  case True
  then show ?thesis by (simp add: same_capture_def on_close_def Let_def)
next
  case False
  then show ?thesis by (simp add: same_capture_def on_close_def Let_def split: sum.splits)
qed

lemma captured_same:
  "same_capture t s \<Longrightarrow> received tes' = received tes \<Longrightarrow> received_err tes' = received_err tes
   \<Longrightarrow> captured i tes s \<Longrightarrow> captured i tes' t"
  by (simp add: same_capture_def captured_def)

lemma scan_Nil: "scan [] = ([], [])"
  by (subst scan.simps) (simp add: indexOf_def indexOf_from_def OUTPUT_START_MARKER_def)

lemma captured_spawn: "captured i [] (spawn i inp)"
  by (simp add: captured_def scan_Nil spawn_def resetTimeout_def delete_secrets_def write_stdin_def
      set_secrets_def fresh_def)

lemma capture_limit:
  fixes n :: nat
  assumes "old = take n r" and "t \<longleftrightarrow> n < length r"
  shows "t \<Longrightarrow> old = take n (r @ c) \<and> n < length (r @ c)"
    and "\<not> t \<Longrightarrow> n - length old < length c \<Longrightarrow>
           old @ take (n - length old) c = take n (r @ c) \<and> n < length (r @ c)"
    and "\<not> t \<Longrightarrow> \<not> n - length old < length c \<Longrightarrow>
           old @ c = take n (r @ c) \<and> \<not> n < length (r @ c)"
proof -
  show "old = take n (r @ c) \<and> n < length (r @ c)" if t
    using that assms by simp
  have r: "old = r" "length r \<le> n" if "\<not> t"
    using that assms by simp_all
  show "old @ take (n - length old) c = take n (r @ c) \<and> n < length (r @ c)"
    if "\<not> t" and "n - length old < length c"
    using that r by auto
  show "old @ c = take n (r @ c) \<and> \<not> n < length (r @ c)"
    if "\<not> t" and "\<not> n - length old < length c"
    using that r by auto
qed

lemma captured_on_stdout:
  assumes "captured i tes s"
  shows "captured i (tes @ [(dt, Stdout c)]) (on_stdout i c s)"
proof -
  define n where "n = CONTAINER_MAX_OUTPUT_SIZE (i_cfg i)"
  define s1 where "s1 = (if \<not> stdoutTruncated s then
                  let remaining = n - length (stdout s) in
                  if length c > remaining
                  then s\<lparr>stdout := stdout s @ slice 0 remaining c, stdoutTruncated := True\<rparr>
                  else s\<lparr>stdout := stdout s @ c\<rparr>
                else s)"
  from assms have a: "stdout s = take n (received tes)" "stdoutTruncated s \<longleftrightarrow> n < length (received tes)"
    by (simp_all add: captured_def n_def)
  have out: "stdout s1 = take n (received tes @ c) \<and> (stdoutTruncated s1 \<longleftrightarrow> n < length (received tes @ c))"
  proof (cases "stdoutTruncated s")
    case True
    with capture_limit(1) [OF a, of c] show ?thesis by (simp add: s1_def)
  next
    case nt: False
    show ?thesis
    proof (cases "n - length (stdout s) < length c")
      case True
      with nt capture_limit(2) [OF a, of c] show ?thesis by (simp add: s1_def Let_def slice_def)
    next
      case False
      with nt capture_limit(3) [OF a, of c] show ?thesis by (simp add: s1_def Let_def)
    qed
  qed
  have keep: "stderr s1 = stderr s" "stderrTruncated s1 = stderrTruncated s"
    "framed s1 = framed s" "parseBuffer s1 = parseBuffer s"
    by (simp_all add: s1_def Let_def)
  have os: "on_stdout i c s = (if i_onOutput i then scan_loop i (s1\<lparr>parseBuffer := parseBuffer s1 @ c\<rparr>) else s1)"
    by (simp add: on_stdout_def s1_def n_def Let_def)
  show ?thesis
  proof (cases "i_onOutput i")
    case False
    with assms out keep show ?thesis
      by (simp add: os captured_def received_append received_err_append n_def)
  next
    case True
    with assms have p: "framed s = parsed i (fst (scan (received tes)))"
      "parseBuffer s = snd (scan (received tes))"
      by (simp_all add: captured_def)
    have "scan (received tes @ c)
        = (fst (scan (received tes)) @ fst (scan (parseBuffer s @ c)), snd (scan (parseBuffer s @ c)))"
      unfolding p by (rule scan_append)
    with True assms out keep p show ?thesis
      by (simp add: os captured_def received_append received_err_append n_def scan_loop_scan
          parsed_append)
  qed
qed

lemma captured_on_stderr:
  assumes "captured i tes s"
  shows "captured i (tes @ [(dt, Stderr c)]) (on_stderr i c s)"
proof -
  define n where "n = CONTAINER_MAX_OUTPUT_SIZE (i_cfg i)"
  from assms have a: "stderr s = take n (received_err tes)"
    "stderrTruncated s \<longleftrightarrow> n < length (received_err tes)"
    by (simp_all add: captured_def n_def)
  have "stderr (on_stderr i c s) = take n (received_err tes @ c)
      \<and> (stderrTruncated (on_stderr i c s) \<longleftrightarrow> n < length (received_err tes @ c))"
  proof (cases "stderrTruncated s")
    case True
    with capture_limit(1) [OF a, of c] show ?thesis by (simp add: on_stderr_def)
  next
    case nt: False
    show ?thesis
    proof (cases "n - length (stderr s) < length c")
      case True
      with nt capture_limit(2) [OF a, of c] show ?thesis
        by (simp add: on_stderr_def Let_def slice_def n_def [symmetric])
    next
      case False
      with nt capture_limit(3) [OF a, of c] show ?thesis
        by (simp add: on_stderr_def Let_def n_def [symmetric])
    qed
  qed
  moreover have "stdout (on_stderr i c s) = stdout s" "stdoutTruncated (on_stderr i c s) = stdoutTruncated s"
    "framed (on_stderr i c s) = framed s" "parseBuffer (on_stderr i c s) = parseBuffer s"
    by (simp_all add: on_stderr_def Let_def)
  ultimately show ?thesis
    using assms by (simp add: captured_def received_append received_err_append n_def)
qed

lemma captured_step:
  assumes "captured i tes s"
  shows "captured i (tes @ [te]) (step i te s)"
proof -
  obtain dt e where te: "te = (dt, e)" by (cases te)
  have adv: "captured i tes (advance dt s)"
    using same_capture_advance assms by (rule captured_same [OF _ refl refl])
  show ?thesis
  proof (cases e)
    case (Stdout c)
    with adv show ?thesis by (simp add: te step_def captured_on_stdout)
  next
    case (Stderr c)
    with adv show ?thesis by (simp add: te step_def captured_on_stderr)
  next
    case (Settled r)
    have "captured i (tes @ [(dt, Settled r)]) (callback_settled r (advance dt s))"
      using same_capture_settled _ _ adv
      by (rule captured_same) (simp_all add: received_append received_err_append)
    with Settled show ?thesis by (simp add: te step_def)
  next
    case (Closed code)
    have "captured i (tes @ [(dt, Closed code)]) (on_close i code (advance dt s))"
      using same_capture_on_close _ _ adv
      by (rule captured_same) (simp_all add: received_append received_err_append)
    with Closed show ?thesis by (simp add: te step_def)
  next
    case (Failed msg)
    have "captured i (tes @ [(dt, Failed msg)]) (on_error msg (advance dt s))"
      using same_capture_on_error _ _ adv
      by (rule captured_same) (simp_all add: received_append received_err_append)
    with Failed show ?thesis by (simp add: te step_def)
  next
    case Tick
    have "captured i (tes @ [(dt, Tick)]) (advance dt s)"
      using adv by (simp add: captured_def received_append received_err_append)
    with Tick show ?thesis by (simp add: te step_def)
  qed
qed

lemma captured_run: "captured i tes (run i tes (spawn i inp))"
proof (induction tes rule: rev_induct)
  case Nil
  show ?case by (simp add: captured_spawn)
next
  case (snoc te tes)
  then show ?case by (simp add: run_snoc captured_step)
qed

lemma file_writes_append: "file_writes (fs @ gs) = file_writes fs @ file_writes gs"
  by (induction fs rule: file_writes.induct) simp_all

lemma file_writes_resolve [simp]: "file_writes (effects (resolve r s)) = file_writes (effects s)"
  by (simp add: resolve_def file_writes_append split: option.splits)

lemma file_writes_run_chain [simp]: "file_writes (effects (run_chain ts s)) = file_writes (effects s)"
  by (induction ts s rule: run_chain.induct) (simp_all add: file_writes_append)

lemma file_writes_chain_then [simp]: "file_writes (effects (chain_then t s)) = file_writes (effects s)"
  by (simp add: chain_then_def)

lemma run_log_written:
  "\<not> timedOut s \<Longrightarrow>
   \<exists>detail. file_writes (effects (on_close i code s))
     = file_writes (effects s) @ [Run_log code (stdoutTruncated s) (stderrTruncated s) detail]"
  by (simp add: on_close_def Let_def file_writes_append split: sum.splits)

text \<open>
  Claim C8, amended. After any run: the captured text of each stream is what the worker
  wrote to it, cut at the ceiling, and the stream's truncation flag is set exactly when
  the worker wrote more than the ceiling; when the worker closes without having been
  timed out, the close handler writes both flags to the run log. With a callback, the
  events parsed are those of scanning everything the worker wrote to stdout, and the
  marker pairs found in the captured text are the first of those found there. The flags
  are variables of the call and fields of the log; the returned result has no such
  field.
\<close>

theorem truncation_flagged_and_parsed:
  assumes "s = run i tes (spawn i inp)"
  shows "stdout s = take (CONTAINER_MAX_OUTPUT_SIZE (i_cfg i)) (received tes)
       \<and> (stdoutTruncated s \<longleftrightarrow> CONTAINER_MAX_OUTPUT_SIZE (i_cfg i) < length (received tes))
       \<and> stderr s = take (CONTAINER_MAX_OUTPUT_SIZE (i_cfg i)) (received_err tes)
       \<and> (stderrTruncated s \<longleftrightarrow> CONTAINER_MAX_OUTPUT_SIZE (i_cfg i) < length (received_err tes))
       \<and> (\<not> timedOut s \<longrightarrow>
            (\<exists>detail. file_writes (effects (on_close i code s))
               = file_writes (effects s) @ [Run_log code (stdoutTruncated s) (stderrTruncated s) detail]))
       \<and> (i_onOutput i \<longrightarrow>
            framed s = parsed i (fst (scan (received tes)))
          \<and> (\<exists>more. fst (scan (received tes)) = fst (scan (stdout s)) @ more))"
proof -
  have c: "captured i tes s"
    unfolding assms by (rule captured_run)
  then have out: "stdout s = take (CONTAINER_MAX_OUTPUT_SIZE (i_cfg i)) (received tes)"
    by (simp add: captured_def)
  have "scan (stdout s @ drop (CONTAINER_MAX_OUTPUT_SIZE (i_cfg i)) (received tes))
      = (fst (scan (stdout s)) @ fst (scan (snd (scan (stdout s))
            @ drop (CONTAINER_MAX_OUTPUT_SIZE (i_cfg i)) (received tes))),
         snd (scan (snd (scan (stdout s)) @ drop (CONTAINER_MAX_OUTPUT_SIZE (i_cfg i)) (received tes))))"
    by (rule scan_append)
  then have "\<exists>more. fst (scan (received tes)) = fst (scan (stdout s)) @ more"
    by (simp add: out)
  with c run_log_written [of s i code] show ?thesis
    by (simp add: captured_def)
qed

theorem truncation_flagged_and_parsed_witness:
  "i_onOutput streaming
   \<and> view_timer (run streaming [(10, Stdout (frame payload_one @ frame payload_two))]
        (spawn streaming sample_input)) = (10, Some 100010, False, False)
   \<and> view_capture (run streaming [(10, Stdout (frame payload_one @ frame payload_two))]
        (spawn streaming sample_input))
      = (take 100 (frame payload_one @ frame payload_two), True, [output_one, output_two])
   \<and> fst (scan (take 100 (frame payload_one @ frame payload_two))) = [payload_one]"
proof -
  define s where "s = run streaming [(10, Stdout (frame payload_one @ frame payload_two))]
        (spawn streaming sample_input)"
  have on: "i_onOutput streaming"
    by (simp add: streaming_def)
  have t: "view_timer s = (10, Some 100010, False, False)"
    unfolding s_def by (simp add: run_eval)
  have c: "view_capture s = (take 100 (frame payload_one @ frame payload_two), True,
             [output_one, output_two])"
    unfolding s_def by (simp add: run_eval)
  have p: "fst (scan (take 100 (frame payload_one @ frame payload_two))) = [payload_one]"
    by (simp add: run_eval scan.simps)
  have "\<exists>more. fst (scan (received [(10, Stdout (frame payload_one @ frame payload_two))]))
          = fst (scan (stdout s)) @ more"
    using truncation_flagged_and_parsed [OF s_def] on by blast
  with on t c p show ?thesis
    unfolding s_def [symmetric] by simp
qed

text \<open>
  Claim C8, as stated, fails. With a ceiling of 100 characters, a worker that writes two
  framed events, 142 characters, and exits with code 0 has its stdout flagged as
  truncated, and the promise resolves with the very value it resolves with for a worker
  that writes one framed event, 71 characters, whose stdout is not truncated: status
  success, result null and nothing else.
\<close>

theorem result_has_no_truncation_flag:
  "view_flags (run streaming [(10, Stdout (frame payload_one @ frame payload_one)),
       (5, Closed (Some 0)), (1, Settled Done), (1, Settled Done)] (spawn streaming sample_input))
     = (True, False, Some \<lparr> status = Success, result = None, newSessionId = None,
                             error = None, isPartial = None, streamType = None \<rparr>)
   \<and> view_flags (run streaming [(10, Stdout (frame payload_one)),
       (5, Closed (Some 0)), (1, Settled Done)] (spawn streaming sample_input))
     = (False, False, Some \<lparr> status = Success, result = None, newSessionId = None,
                              error = None, isPartial = None, streamType = None \<rparr>)"
  by (simp add: run_eval)

section \<open>Properties of the inbound handlers\<close>

lemma delivered_to_append: "delivered_to (cs @ ds) = delivered_to cs @ delivered_to ds"
  by (induction cs rule: delivered_to.induct) simp_all

lemma delivered_to_tg_store:
  "delivered_to (tg_store groups ctx text)
     = (if groups (tg_jid (chat_id ctx)) = None then [] else [tg_jid (chat_id ctx)])"
  by (simp add: tg_store_def tg_message_def Let_def)

lemma delivered_to_tg_on_text:
  "set (delivered_to (tg_on_text cfg trigger groups ctx))
     \<subseteq> (if groups (tg_jid (chat_id ctx)) = None then {} else {tg_jid (chat_id ctx)})"
  by (simp add: tg_on_text_def Let_def)

lemma delivered_to_tg_handle:
  "set (delivered_to (fst (tg_handle cfg trigger groups ctx)))
     \<subseteq> (if groups (tg_jid (chat_id ctx)) = None then {} else {tg_jid (chat_id ctx)})"
proof (cases "isAllowedSender groups ctx")
  case False
  then show ?thesis by (simp add: tg_handle_def)
next
  case True
  show ?thesis
  proof (cases "route ctx")
    case Msg_text
    with True delivered_to_tg_on_text [of cfg trigger groups ctx] show ?thesis
      by (simp add: tg_handle_def)
  qed (use True in \<open>simp_all add: tg_handle_def storeNonText_def tg_on_voice_def
        delivered_to_tg_store tg_on_chatid_def Let_def\<close>)
qed

lemma waiting_tg_handle:
  "snd (tg_handle cfg trigger groups ctx) = Some t \<Longrightarrow>
   groups (tg_jid (chat_id ctx)) \<noteq> None \<and> t_ctx t = ctx \<and> t_groups t = groups
   \<and> route ctx = Msg_voice"
  by (cases "route ctx"; cases "isAllowedSender groups ctx")
     (auto simp: tg_handle_def tg_on_voice_def Let_def split: if_splits)

lemma unregistered_tg_handle:
  "groups (tg_jid (chat_id ctx)) = None \<Longrightarrow> snd (tg_handle cfg trigger groups ctx) = None"
  by (cases "route ctx"; cases "isAllowedSender groups ctx")
     (simp_all add: tg_handle_def tg_on_voice_def Let_def)

lemma delivered_to_wa_on_message:
  "set (delivered_to (fst (fst (wa_on_message cfg groups reply msg s))))
     \<subseteq> (if groups (fst (translateJid (the (remoteJid msg)) reply s)) = None then {}
         else {fst (translateJid (the (remoteJid msg)) reply s)})"
  by (simp add: wa_on_message_def wa_deliver_def Let_def split: prod.splits)

lemma waiting_wa_on_message:
  "snd (fst (wa_on_message cfg groups reply msg s)) = Some v \<Longrightarrow>
   groups (fst (translateJid (the (remoteJid msg)) reply s)) \<noteq> None
   \<and> v_chatJid v = fst (translateJid (the (remoteJid msg)) reply s) \<and> v_groups v = groups
   \<and> v_msg v = msg \<and> isVoiceMessage msg"
  by (auto simp: wa_on_message_def Let_def split: prod.splits if_splits)

lemma unregistered_wa_on_message:
  "groups (fst (translateJid (the (remoteJid msg)) reply s)) = None \<Longrightarrow>
   snd (fst (wa_on_message cfg groups reply msg s)) = None"
  by (auto simp: wa_on_message_def Let_def split: prod.splits)

lemma delivered_to_transcribed:
  "delivered_to [wa_on_transcribed cfg tr v] = [v_chatJid v]"
  "delivered_to [tg_on_transcribed transcript t] = [tg_jid (chat_id (t_ctx t))]"
  by (simp_all add: wa_on_transcribed_def wa_deliver_def tg_on_transcribed_def tg_message_def Let_def)

text \<open>The state invariant, and the log of deliveries against the log of calls.\<close>

lemma inbound_inv_call:
  assumes "inbound_inv w"
      and "\<And>jid. jid \<in> set (delivered_to cs) \<Longrightarrow> groups jid \<noteq> None"
      and "late \<or> groups = registry w"
  shows "inbound_inv (call late groups cs w)"
proof -
  have "list_all delivery_ok
      (map (\<lambda>jid. \<lparr> to_chat = jid, awaited = late, key_at_read = (groups jid \<noteq> None),
                    key_at_delivery = (registry w jid \<noteq> None) \<rparr>) (delivered_to cs))"
    using assms(2,3) by (auto simp: list_all_iff delivery_ok_def)
  with assms(1) show ?thesis
    by (simp add: inbound_inv_def call_def)
qed

lemma list_all_remove:
  "list_all P xs \<Longrightarrow> list_all P (take k xs)" "list_all P xs \<Longrightarrow> list_all P (drop k xs)"
  by (auto simp: list_all_iff dest: in_set_takeD in_set_dropD)

lemma inbound_inv_step: "inbound_inv w \<Longrightarrow> inbound_inv (inbound_step cfg trigger e w)"
proof (cases e)
  case (Registry_is g)
  assume "inbound_inv w"
  with Registry_is show ?thesis by (simp add: inbound_inv_def)
next
  case (Wa_message reply msg)
  assume w: "inbound_inv w"
  define r where "r = wa_on_message cfg (registry w) reply msg (wa_chan w)"
  define w1 where "w1 = w\<lparr>wa_chan := snd r,
      wa_waiting := wa_waiting w @ (case snd (fst r) of None \<Rightarrow> [] | Some v \<Rightarrow> [v])\<rparr>"
  have new: "list_all (\<lambda>v. v_groups v (v_chatJid v) \<noteq> None)
      (case snd (fst r) of None \<Rightarrow> [] | Some v \<Rightarrow> [v])"
    using waiting_wa_on_message [of cfg "registry w" reply msg "wa_chan w"]
    by (auto simp: r_def split: option.splits)
  with w have "inbound_inv w1"
    by (simp add: inbound_inv_def w1_def)
  moreover have "registry w jid \<noteq> None" if "jid \<in> set (delivered_to (fst (fst r)))" for jid
    using that delivered_to_wa_on_message [of cfg "registry w" reply msg "wa_chan w"]
    by (auto simp: r_def split: if_splits)
  ultimately have "inbound_inv (call False (registry w) (fst (fst r)) w1)"
    by (intro inbound_inv_call) (simp_all add: w1_def)
  with Wa_message show ?thesis
    by (simp add: Let_def r_def w1_def)
next
  case (Wa_transcribed k tr)
  assume w: "inbound_inv w"
  show ?thesis
  proof (cases "k < length (wa_waiting w)")
    case False
    with w Wa_transcribed show ?thesis by simp
  next
    case True
    define v where "v = wa_waiting w ! k"
    define w1 where "w1 = w\<lparr>wa_waiting := take k (wa_waiting w) @ drop (Suc k) (wa_waiting w)\<rparr>"
    from w True have key: "v_groups v (v_chatJid v) \<noteq> None"
      by (simp add: inbound_inv_def v_def list_all_length)
    from w have "inbound_inv w1"
      by (simp add: inbound_inv_def w1_def list_all_remove)
    then have "inbound_inv (call True (v_groups v) [wa_on_transcribed cfg tr v] w1)"
      using key by (intro inbound_inv_call) (simp_all add: delivered_to_transcribed)
    with True Wa_transcribed show ?thesis
      by (simp add: v_def w1_def)
  qed
next
  case (Tg_update ctx)
  assume w: "inbound_inv w"
  define r where "r = tg_handle cfg trigger (registry w) ctx"
  define w1 where "w1 = w\<lparr>tg_waiting := tg_waiting w @ (case snd r of None \<Rightarrow> [] | Some v \<Rightarrow> [v])\<rparr>"
  have new: "list_all (\<lambda>v. t_groups v (tg_jid (chat_id (t_ctx v))) \<noteq> None)
      (case snd r of None \<Rightarrow> [] | Some v \<Rightarrow> [v])"
    using waiting_tg_handle [of cfg trigger "registry w" ctx]
    by (auto simp: r_def split: option.splits)
  with w have "inbound_inv w1"
    by (simp add: inbound_inv_def w1_def)
  moreover have "registry w jid \<noteq> None" if "jid \<in> set (delivered_to (fst r))" for jid
    using that delivered_to_tg_handle [of cfg trigger "registry w" ctx]
    by (auto simp: r_def split: if_splits)
  ultimately have "inbound_inv (call False (registry w) (fst r) w1)"
    by (intro inbound_inv_call) (simp_all add: w1_def)
  with Tg_update show ?thesis
    by (simp add: Let_def r_def w1_def)
next
  case (Tg_transcribed k transcript)
  assume w: "inbound_inv w"
  show ?thesis
  proof (cases "k < length (tg_waiting w)")
    case False
    with w Tg_transcribed show ?thesis by simp
  next
    case True
    define v where "v = tg_waiting w ! k"
    define w1 where "w1 = w\<lparr>tg_waiting := take k (tg_waiting w) @ drop (Suc k) (tg_waiting w)\<rparr>"
    from w True have key: "t_groups v (tg_jid (chat_id (t_ctx v))) \<noteq> None"
      by (simp add: inbound_inv_def v_def list_all_length)
    from w have "inbound_inv w1"
      by (simp add: inbound_inv_def w1_def list_all_remove)
    then have "inbound_inv (call True (t_groups v) [tg_on_transcribed transcript v] w1)"
      using key by (intro inbound_inv_call) (simp_all add: delivered_to_transcribed)
    with True Tg_transcribed show ?thesis
      by (simp add: v_def w1_def)
  qed
qed

lemma inbound_inv_run: "inbound_inv w \<Longrightarrow> inbound_inv (inbound_run cfg trigger es w)"
  by (induction es arbitrary: w) (simp_all add: inbound_inv_step)

lemma inbound_inv_init: "inbound_inv (inbound_init g s)"
  by (simp add: inbound_inv_def inbound_init_def)

lemma logged_call:
  "map to_chat (delivered w) = delivered_to (called w) \<Longrightarrow>
   map to_chat (delivered (call late groups cs w)) = delivered_to (called (call late groups cs w))"
  by (simp add: call_def delivered_to_append comp_def)

lemma logged_step:
  "map to_chat (delivered w) = delivered_to (called w) \<Longrightarrow>
   map to_chat (delivered (inbound_step cfg trigger e w))
     = delivered_to (called (inbound_step cfg trigger e w))"
  by (cases e) (simp_all add: Let_def logged_call)

lemma logged_run:
  "map to_chat (delivered w) = delivered_to (called w) \<Longrightarrow>
   map to_chat (delivered (inbound_run cfg trigger es w))
     = delivered_to (called (inbound_run cfg trigger es w))"
  by (induction es arbitrary: w) (simp_all add: logged_step)

lemmas inbound_eval =
  wa_on_message_def wa_deliver_def wa_on_transcribed_def translateJid_def endsWith_def
  startsWith_def truthy_def or_else_def
  media_content_def voice_content_def isVoiceMessage_def split_first_def
  tg_handle_def tg_on_voice_def tg_on_transcribed_def tg_message_def
  isAllowedSender_def tg_jid_def show_int_def digit_def storeNonText_def
  tg_store_def tg_sender_def tg_sender_name_def inbound_init_def call_def
  sample_groups_def sample_group_def sample_wa_message_def sample_tg_ctx_def sample_cfg_def
  sample_wa_voice_def sample_tg_voice_def no_groups_def
  wa_init_def no_trigger_def Let_def

text \<open>
  Claim C10, as stated, fails for voice messages on both channels. A voice message
  arrives from a registered chat; the handler reads the registry, finds the chat and
  awaits the transcription; meanwhile the chat is removed from the registry; when the
  transcription ends the handler calls \<open>onMessage\<close> for the chat, which is not a key of
  the registry at that moment.
\<close>

theorem voice_delivered_after_removal:
  "delivered (inbound_run sample_cfg no_trigger
      [Wa_message PN_null sample_wa_voice, Registry_is no_groups,
       Wa_transcribed 0 (Transcript (Some ''hi''))] (inbound_init sample_groups wa_init))
     = [\<lparr> to_chat = ''120363@g.us'', awaited = True, key_at_read = True, key_at_delivery = False \<rparr>]
   \<and> delivered_to (called (inbound_run sample_cfg no_trigger
      [Wa_message PN_null sample_wa_voice, Registry_is no_groups,
       Wa_transcribed 0 (Transcript (Some ''hi''))] (inbound_init sample_groups wa_init)))
     = [''120363@g.us'']
   \<and> registry (inbound_run sample_cfg no_trigger
      [Wa_message PN_null sample_wa_voice, Registry_is no_groups,
       Wa_transcribed 0 (Transcript (Some ''hi''))] (inbound_init sample_groups wa_init))
        ''120363@g.us'' = None
   \<and> delivered (inbound_run sample_cfg no_trigger
      [Tg_update sample_tg_voice, Registry_is no_groups, Tg_transcribed 0 None]
      (inbound_init sample_groups wa_init))
     = [\<lparr> to_chat = ''tg:-1001'', awaited = True, key_at_read = True, key_at_delivery = False \<rparr>]
   \<and> delivered_to (called (inbound_run sample_cfg no_trigger
      [Tg_update sample_tg_voice, Registry_is no_groups, Tg_transcribed 0 None]
      (inbound_init sample_groups wa_init))) = [''tg:-1001'']
   \<and> registry (inbound_run sample_cfg no_trigger
      [Tg_update sample_tg_voice, Registry_is no_groups, Tg_transcribed 0 None]
      (inbound_init sample_groups wa_init)) ''tg:-1001'' = None"
  by (simp add: inbound_eval)

text \<open>
  Claim C10, amended. Whatever messages arrive, whatever the registry becomes in between
  and whenever the transcriptions end: every message delivered to \<open>onMessage\<close> is for a
  chat that was a key of the registry its handler read, and, unless the handler had
  awaited a transcription before the call, of the registry at the moment of the call; the
  log of deliveries has one entry for each call of \<open>onMessage\<close>. For one run of a
  handler: it delivers at once only to the chat the message came from and only when that
  chat is a key of the registry it read; it suspends only for a voice message of a chat
  that is a key of that registry, and the rest of a suspended handler delivers to that
  chat; for a chat that is not a key, no message is delivered and the handler does not
  suspend (it calls at most \<open>onChatMetadata\<close>).
\<close>

theorem only_registered_chats_delivered:
  "(\<forall>d \<in> set (delivered (inbound_run cfg trigger evs (inbound_init g s0))).
      key_at_read d \<and> (\<not> awaited d \<longrightarrow> key_at_delivery d))
   \<and> map to_chat (delivered (inbound_run cfg trigger evs (inbound_init g s0)))
       = delivered_to (called (inbound_run cfg trigger evs (inbound_init g s0)))
   \<and> (jid \<in> set (delivered_to (fst (fst (wa_on_message cfg groups reply msg s)))) \<longrightarrow>
        jid \<in> dom groups \<and> jid = fst (translateJid (the (remoteJid msg)) reply s))
   \<and> (snd (fst (wa_on_message cfg groups reply msg s)) = Some v \<longrightarrow>
        v_chatJid v \<in> dom groups \<and> v_chatJid v = fst (translateJid (the (remoteJid msg)) reply s)
      \<and> v_groups v = groups \<and> isVoiceMessage msg)
   \<and> delivered_to [wa_on_transcribed cfg tr v] = [v_chatJid v]
   \<and> (fst (translateJid (the (remoteJid msg)) reply s) \<notin> dom groups \<longrightarrow>
        delivered_to (fst (fst (wa_on_message cfg groups reply msg s))) = []
      \<and> snd (fst (wa_on_message cfg groups reply msg s)) = None)
   \<and> (jid \<in> set (delivered_to (fst (tg_handle cfg trigger groups ctx))) \<longrightarrow>
        jid \<in> dom groups \<and> jid = tg_jid (chat_id ctx))
   \<and> (snd (tg_handle cfg trigger groups ctx) = Some t \<longrightarrow>
        tg_jid (chat_id (t_ctx t)) \<in> dom groups \<and> t_ctx t = ctx \<and> t_groups t = groups
      \<and> route ctx = Msg_voice)
   \<and> delivered_to [tg_on_transcribed transcript t] = [tg_jid (chat_id (t_ctx t))]
   \<and> (tg_jid (chat_id ctx) \<notin> dom groups \<longrightarrow>
        delivered_to (fst (tg_handle cfg trigger groups ctx)) = []
      \<and> snd (tg_handle cfg trigger groups ctx) = None)"
proof -
  define w where "w = inbound_run cfg trigger evs (inbound_init g s0)"
  have "inbound_inv w"
    unfolding w_def by (rule inbound_inv_run [OF inbound_inv_init])
  then have c1: "\<forall>d \<in> set (delivered w). key_at_read d \<and> (\<not> awaited d \<longrightarrow> key_at_delivery d)"
    by (auto simp: inbound_inv_def list_all_iff delivery_ok_def)
  have c2: "map to_chat (delivered w) = delivered_to (called w)"
    unfolding w_def by (rule logged_run) (simp add: inbound_init_def)
  have wa: "set (delivered_to (fst (fst (wa_on_message cfg groups reply msg s))))
     \<subseteq> (if groups (fst (translateJid (the (remoteJid msg)) reply s)) = None then {}
         else {fst (translateJid (the (remoteJid msg)) reply s)})"
    by (rule delivered_to_wa_on_message)
  have tg: "set (delivered_to (fst (tg_handle cfg trigger groups ctx)))
     \<subseteq> (if groups (tg_jid (chat_id ctx)) = None then {} else {tg_jid (chat_id ctx)})"
    by (rule delivered_to_tg_handle)
  from wa have c3: "jid \<in> set (delivered_to (fst (fst (wa_on_message cfg groups reply msg s)))) \<longrightarrow>
      jid \<in> dom groups \<and> jid = fst (translateJid (the (remoteJid msg)) reply s)"
    by (auto simp: dom_def split: if_splits)
  have c4: "snd (fst (wa_on_message cfg groups reply msg s)) = Some v \<longrightarrow>
        v_chatJid v \<in> dom groups \<and> v_chatJid v = fst (translateJid (the (remoteJid msg)) reply s)
      \<and> v_groups v = groups \<and> isVoiceMessage msg"
    using waiting_wa_on_message [of cfg groups reply msg s v] by (auto simp: dom_def)
  have c5: "delivered_to [wa_on_transcribed cfg tr v] = [v_chatJid v]"
    by (rule delivered_to_transcribed)
  from wa have c6: "fst (translateJid (the (remoteJid msg)) reply s) \<notin> dom groups \<longrightarrow>
      delivered_to (fst (fst (wa_on_message cfg groups reply msg s))) = []
      \<and> snd (fst (wa_on_message cfg groups reply msg s)) = None"
    using unregistered_wa_on_message [of groups msg reply s cfg]
    by (auto simp: dom_def split: if_splits)
  from tg have c7: "jid \<in> set (delivered_to (fst (tg_handle cfg trigger groups ctx))) \<longrightarrow>
      jid \<in> dom groups \<and> jid = tg_jid (chat_id ctx)"
    by (auto simp: dom_def split: if_splits)
  have c8: "snd (tg_handle cfg trigger groups ctx) = Some t \<longrightarrow>
        tg_jid (chat_id (t_ctx t)) \<in> dom groups \<and> t_ctx t = ctx \<and> t_groups t = groups
      \<and> route ctx = Msg_voice"
    using waiting_tg_handle [of cfg trigger groups ctx t] by (auto simp: dom_def)
  have c9: "delivered_to [tg_on_transcribed transcript t] = [tg_jid (chat_id (t_ctx t))]"
    by (rule delivered_to_transcribed)
  from tg have c10: "tg_jid (chat_id ctx) \<notin> dom groups \<longrightarrow>
      delivered_to (fst (tg_handle cfg trigger groups ctx)) = []
      \<and> snd (tg_handle cfg trigger groups ctx) = None"
    using unregistered_tg_handle [of groups ctx cfg trigger]
    by (auto simp: dom_def split: if_splits)
  show ?thesis
    using c1 c2 c3 c4 c5 c6 c7 c8 c9 c10 unfolding w_def by (intro conjI) assumption+
qed

theorem only_registered_chats_delivered_witness:
  "delivered (inbound_run sample_cfg no_trigger
      [Wa_message PN_null sample_wa_message, Tg_update sample_tg_ctx,
       Wa_message PN_null sample_wa_voice, Wa_transcribed 0 (Transcript (Some ''hi''))]
      (inbound_init sample_groups wa_init))
     = [\<lparr> to_chat = ''120363@g.us'', awaited = False, key_at_read = True, key_at_delivery = True \<rparr>,
        \<lparr> to_chat = ''tg:-1001'', awaited = False, key_at_read = True, key_at_delivery = True \<rparr>,
        \<lparr> to_chat = ''120363@g.us'', awaited = True, key_at_read = True, key_at_delivery = True \<rparr>]
   \<and> delivered_to (fst (fst (wa_on_message sample_cfg sample_groups PN_null sample_wa_message wa_init)))
       = [''120363@g.us'']
   \<and> ''120363@g.us'' \<in> dom sample_groups
   \<and> ''555@s.whatsapp.net'' \<notin> dom sample_groups
   \<and> fst (wa_on_message sample_cfg sample_groups PN_null
        (sample_wa_message\<lparr>remoteJid := Some ''555@s.whatsapp.net''\<rparr>) wa_init)
      = ([OnChatMetadata ''555@s.whatsapp.net'' 1700000000000 None], None)
   \<and> fst (wa_on_message sample_cfg sample_groups PN_null sample_wa_voice wa_init)
      = ([OnChatMetadata ''120363@g.us'' 1700000000000 None],
         Some \<lparr> v_groups = sample_groups, v_chatJid = ''120363@g.us'', v_msg = sample_wa_voice \<rparr>)
   \<and> delivered_to (fst (tg_handle sample_cfg no_trigger sample_groups sample_tg_ctx)) = [''tg:-1001'']
   \<and> ''tg:-1001'' \<in> dom sample_groups
   \<and> tg_handle sample_cfg no_trigger sample_groups (sample_tg_ctx\<lparr>chat_id := 5\<rparr>) = ([], None)"
proof -
  define w where "w = inbound_run sample_cfg no_trigger
      [Wa_message PN_null sample_wa_message, Tg_update sample_tg_ctx,
       Wa_message PN_null sample_wa_voice, Wa_transcribed 0 (Transcript (Some ''hi''))]
      (inbound_init sample_groups wa_init)"
  have ev: "map to_chat (delivered w) = [''120363@g.us'', ''tg:-1001'', ''120363@g.us'']
      \<and> map awaited (delivered w) = [False, False, True]
      \<and> map key_at_delivery (delivered w) = [True, True, True]"
    unfolding w_def by (simp add: inbound_eval)
  have th: "\<forall>d \<in> set (delivered w). key_at_read d \<and> (\<not> awaited d \<longrightarrow> key_at_delivery d)"
    using only_registered_chats_delivered [of sample_cfg no_trigger
        "[Wa_message PN_null sample_wa_message, Tg_update sample_tg_ctx,
          Wa_message PN_null sample_wa_voice, Wa_transcribed 0 (Transcript (Some ''hi''))]"
        sample_groups wa_init]
    unfolding w_def [symmetric] by blast
  from ev have "map to_chat (delivered w) = [''120363@g.us'', ''tg:-1001'', ''120363@g.us'']"
    by simp
  then obtain a b c where abc: "delivered w = [a, b, c]"
    by (auto simp: map_eq_Cons_conv)
  with th have "key_at_read a" "key_at_read b" "key_at_read c" by simp_all
  with abc ev have one: "delivered w
     = [\<lparr> to_chat = ''120363@g.us'', awaited = False, key_at_read = True, key_at_delivery = True \<rparr>,
        \<lparr> to_chat = ''tg:-1001'', awaited = False, key_at_read = True, key_at_delivery = True \<rparr>,
        \<lparr> to_chat = ''120363@g.us'', awaited = True, key_at_read = True, key_at_delivery = True \<rparr>]"
    by (cases a; cases b; cases c) simp
  have two: "delivered_to (fst (fst (wa_on_message sample_cfg sample_groups PN_null sample_wa_message wa_init)))
       = [''120363@g.us'']
   \<and> ''120363@g.us'' \<in> dom sample_groups
   \<and> ''555@s.whatsapp.net'' \<notin> dom sample_groups
   \<and> fst (wa_on_message sample_cfg sample_groups PN_null
        (sample_wa_message\<lparr>remoteJid := Some ''555@s.whatsapp.net''\<rparr>) wa_init)
      = ([OnChatMetadata ''555@s.whatsapp.net'' 1700000000000 None], None)
   \<and> fst (wa_on_message sample_cfg sample_groups PN_null sample_wa_voice wa_init)
      = ([OnChatMetadata ''120363@g.us'' 1700000000000 None],
         Some \<lparr> v_groups = sample_groups, v_chatJid = ''120363@g.us'', v_msg = sample_wa_voice \<rparr>)
   \<and> delivered_to (fst (tg_handle sample_cfg no_trigger sample_groups sample_tg_ctx)) = [''tg:-1001'']
   \<and> ''tg:-1001'' \<in> dom sample_groups
   \<and> tg_handle sample_cfg no_trigger sample_groups (sample_tg_ctx\<lparr>chat_id := 5\<rparr>) = ([], None)"
    by (simp add: inbound_eval)
  from one two show ?thesis
    unfolding w_def by simp
qed

end
